theory Spec2Isabelle
  imports Main "HOL-Library.AList" "HOL-Library.Sublist"
begin

section \<open>JavaScript values used by the scanner\<close>

text \<open>
  A JavaScript string is modelled as a \<^typ>\<open>string\<close>; a \<^typ>\<open>char\<close> stands for one
  code unit below 256. The scanner's current and previous character are either a
  one-character string or \<open>null\<close>: \<^typ>\<open>char option\<close>, \<open>None\<close> being \<open>null\<close>.
\<close>

abbreviation TAB :: char where "TAB \<equiv> CHR 0x09"
abbreviation LF :: char where "LF \<equiv> CHR 0x0A"
abbreviation CR :: char where "CR \<equiv> CHR 0x0D"
abbreviation DQUOTE :: char where "DQUOTE \<equiv> CHR 0x22"
abbreviation SQUOTE :: char where "SQUOTE \<equiv> CHR 0x27"
abbreviation BACKSLASH :: char where "BACKSLASH \<equiv> CHR 0x5C"

text \<open>\<open>Array.prototype.indexOf\<close>: the first index holding the item, \<open>-1\<close> when there is none.\<close>

fun indexOf :: "'a list \<Rightarrow> 'a \<Rightarrow> int" where
  "indexOf [] x = - 1"
| "indexOf (y # ys) x =
     (if y = x then 0 else (let i = indexOf ys x in if i < 0 then - 1 else i + 1))"

lemma indexOf_nonneg: "- 1 \<le> indexOf xs x"
  by (induction xs) (auto simp add: Let_def)

lemma indexOf_mem [simp]: "0 \<le> indexOf xs x \<longleftrightarrow> x \<in> set xs"
  by (induction xs) (auto simp add: Let_def)

lemma indexOf_not_mem [simp]: "indexOf xs x < 0 \<longleftrightarrow> x \<notin> set xs"
  using indexOf_mem [of xs x] by linarith

text \<open>String concatenation \<open>s + this._c\<close>: \<open>null\<close> is converted to the text \<open>null\<close>.\<close>

fun js_char :: "char option \<Rightarrow> string" where
  "js_char None = ''null''"
| "js_char (Some ch) = [ch]"

fun js_string :: "string option \<Rightarrow> string" where
  "js_string None = ''null''"
| "js_string (Some s) = s"

definition is_letter :: "char \<Rightarrow> bool" where
  "is_letter ch = (let n = (of_char ch :: nat) in (97 \<le> n \<and> n \<le> 122) \<or> (65 \<le> n \<and> n \<le> 90))"

definition is_digit :: "char \<Rightarrow> bool" where
  "is_digit ch = (let n = (of_char ch :: nat) in 48 \<le> n \<and> n \<le> 57)"

text \<open>
  \<open>/[a-zA-Z]/.test(this._c)\<close> and \<open>/[a-zA-Z0-9_-]/.test(this._c)\<close>. The argument of
  \<open>test\<close> is converted to a string first, so \<open>null\<close> is tested as the text \<open>null\<close>,
  which holds a letter: both tests succeed on \<open>null\<close>.
\<close>

fun chars_test :: "char option \<Rightarrow> bool" where
  "chars_test None = True"
| "chars_test (Some ch) = is_letter ch"

fun charsEx_test :: "char option \<Rightarrow> bool" where
  "charsEx_test None = True"
| "charsEx_test (Some ch) = (is_letter ch \<or> is_digit ch \<or> ch = CHR ''_'' \<or> ch = CHR ''-'')"

text \<open>
  \<open>String.prototype.trim\<close> removes white space and line terminators at both ends; below
  256 these are the code units 9 to 13, 32 and 160.
\<close>

definition js_space :: "char \<Rightarrow> bool" where
  "js_space ch = (let n = (of_char ch :: nat) in (9 \<le> n \<and> n \<le> 13) \<or> n = 32 \<or> n = 160)"

definition trim :: "string \<Rightarrow> string" where
  "trim s = rev (dropWhile js_space (rev (dropWhile js_space s)))"

section \<open>MicroParser\<close>

text \<open>
  The fields \<open>_txt\<close>, \<open>_pos\<close>, \<open>_c\<close>, \<open>_p\<close> of the parser object, and the lines written to
  \<open>console.error\<close> by \<open>_syntaxError\<close>: the position, the current character and the reason.
\<close>

type_synonym syntax_error = "nat \<times> char option \<times> string"

record MicroParser =
  mp_txt :: string
  mp_pos :: nat
  mp_c :: "char option"
  mp_p :: "char option"
  console :: "syntax_error list"

definition start :: "string \<Rightarrow> MicroParser" where
  "start t = \<lparr>mp_txt = t, mp_pos = 0, mp_c = None, mp_p = None, console = []\<rparr>"

text \<open>\<open>_next\<close>: the next character, if there is one; otherwise \<open>_c\<close> becomes \<open>null\<close>.\<close>

definition mp_next :: "MicroParser \<Rightarrow> bool \<times> MicroParser" where
  "mp_next s =
     (if mp_pos s < length (mp_txt s)
      then (True, s\<lparr>mp_p := mp_c s, mp_c := Some (mp_txt s ! mp_pos s), mp_pos := mp_pos s + 1\<rparr>)
      else (False, s\<lparr>mp_c := None\<rparr>))"

definition syntaxError :: "string \<Rightarrow> MicroParser \<Rightarrow> MicroParser" where
  "syntaxError x s = s\<lparr>console := console s @ [(mp_pos s, mp_c s, x)]\<rparr>"

text \<open>
  Every scanning function moves the parser by calls of \<open>_next\<close> and \<open>_syntaxError\<close> only.
  \<open>scans s s'\<close> says that \<open>s'\<close> is reached from \<open>s\<close> by such calls.
\<close>

inductive scans :: "MicroParser \<Rightarrow> MicroParser \<Rightarrow> bool" where
  scans_refl: "scans s s"
| scans_next: "scans s s' \<Longrightarrow> scans s (snd (mp_next s'))"
| scans_error: "scans s s' \<Longrightarrow> scans s (syntaxError x s')"

lemma scans_trans [trans]:
  assumes "scans a b" and "scans b c"
  shows "scans a c"
  using assms(2) assms(1) by (induction rule: scans.induct) (auto intro: scans.intros)

lemma scans_next1: "scans s (snd (mp_next s))"
  by (rule scans_next [OF scans_refl])

lemma scans_error1: "scans s (syntaxError x s)"
  by (rule scans_error [OF scans_refl])

text \<open>
  The measure of every scanning loop: nothing is left once \<open>_c\<close> is \<open>null\<close> at the end of
  the text, and otherwise one more than the number of characters not yet read.
\<close>

definition at_end :: "MicroParser \<Rightarrow> bool" where
  "at_end s = (mp_c s = None \<and> length (mp_txt s) \<le> mp_pos s)"

definition remaining :: "MicroParser \<Rightarrow> nat" where
  "remaining s = (if at_end s then 0 else Suc (length (mp_txt s) - mp_pos s))"

lemma at_end_iff: "at_end s \<longleftrightarrow> remaining s = 0"
  by (simp add: remaining_def)

lemma not_at_end_Some: "mp_c s = Some ch \<Longrightarrow> \<not> at_end s"
  by (simp add: at_end_def)

lemma remaining_next_le: "remaining (snd (mp_next s)) \<le> remaining s"
  by (auto simp add: remaining_def at_end_def mp_next_def)

lemma remaining_next_less: "\<not> at_end s \<Longrightarrow> remaining (snd (mp_next s)) < remaining s"
  by (auto simp add: remaining_def at_end_def mp_next_def)

lemma next_True_less: "mp_next s = (True, s') \<Longrightarrow> remaining s' < remaining s"
  by (auto simp add: mp_next_def remaining_def at_end_def split: if_splits)

lemma remaining_syntaxError [simp]: "remaining (syntaxError x s) = remaining s"
  by (simp add: remaining_def at_end_def syntaxError_def)

lemma scans_remaining: "scans s s' \<Longrightarrow> remaining s' \<le> remaining s"
proof (induction rule: scans.induct)
  case (scans_next s s')
  then show ?case using remaining_next_le [of s'] by simp
qed simp_all

lemma scans_at_end: "scans s s' \<Longrightarrow> at_end s \<Longrightarrow> at_end s'"
  using scans_remaining [of s s'] by (simp add: at_end_iff)

lemma scans_txt: "scans s s' \<Longrightarrow> mp_txt s' = mp_txt s"
  by (induction rule: scans.induct) (simp_all add: mp_next_def syntaxError_def)

lemma scans_pos: "scans s s' \<Longrightarrow> mp_pos s \<le> mp_pos s'"
  by (induction rule: scans.induct) (auto simp add: mp_next_def syntaxError_def)

lemma scans_bound:
  "scans s s' \<Longrightarrow> mp_pos s \<le> length (mp_txt s) \<Longrightarrow> mp_pos s' \<le> length (mp_txt s')"
  by (induction rule: scans.induct) (auto simp add: mp_next_def syntaxError_def)

text \<open>\<open>_eatblanks\<close>\<close>

definition blanks :: "char option list" where
  "blanks = [Some CHR '' '', Some TAB, Some LF, Some CR]"

function eatblanks :: "MicroParser \<Rightarrow> MicroParser" where
  "eatblanks s = (if 0 \<le> indexOf blanks (mp_c s) then eatblanks (snd (mp_next s)) else s)"
  by pat_completeness auto

text \<open>The recursion of \<open>eatblanks\<close> ends from every argument.\<close>

lemma eatblanks_terminates: "All eatblanks_dom"
proof (relation "measure remaining")
  show "wf (measure remaining)" by simp
next
  fix s :: MicroParser
  assume "0 \<le> indexOf blanks (mp_c s)"
  then have "mp_c s \<in> set blanks" by simp
  then have "mp_c s \<noteq> None" by (auto simp add: blanks_def)
  then have "\<not> at_end s" by (simp add: at_end_def)
  then show "(snd (mp_next s), s) \<in> measure remaining"
    by (simp add: remaining_next_less)
qed

termination eatblanks
  by (rule eatblanks_terminates)

declare eatblanks.simps [simp del]

lemma scans_eatblanks: "scans s (eatblanks s)"
proof (induction s rule: eatblanks.induct)
  case (1 s)
  show ?case
  proof (cases "0 \<le> indexOf blanks (mp_c s)")
    case True
    have "scans s (snd (mp_next s))" by (rule scans_next1)
    also have "scans (snd (mp_next s)) (eatblanks (snd (mp_next s)))" using 1 True by simp
    finally show ?thesis using True by (simp add: eatblanks.simps [of s])
  next
    case False
    then show ?thesis by (simp add: eatblanks.simps [of s] scans_refl)
  qed
qed

text \<open>\<open>_getAttr\<close>\<close>

function attr_loop :: "MicroParser \<Rightarrow> string option \<Rightarrow> string option \<times> MicroParser" where
  "attr_loop s attr =
     (let (ok, s') = mp_next s in
      if ok \<and> charsEx_test (mp_c s')
      then attr_loop s' (Some (js_string attr @ js_char (mp_c s')))
      else (attr, s'))"
  by pat_completeness auto

text \<open>The recursion of \<open>attr_loop\<close> ends from every argument.\<close>

lemma attr_loop_terminates: "All attr_loop_dom"
  by (relation "measure (\<lambda>(s, attr). remaining s)") (auto simp add: next_True_less)

termination attr_loop
  by (rule attr_loop_terminates)

declare attr_loop.simps [simp del]

definition getAttr :: "MicroParser \<Rightarrow> string option \<times> MicroParser" where
  "getAttr s =
     (let s1 = eatblanks s in
      if \<not> chars_test (mp_c s1) then (None, s1)
      else (let (attr, s2) = attr_loop s1 (map_option (\<lambda>ch. [ch]) (mp_c s1))
            in (attr, eatblanks s2)))"

lemma scans_attr_loop: "scans s (snd (attr_loop s attr))"
proof (induction s attr rule: attr_loop.induct)
  case (1 s attr)
  obtain ok s' where n: "mp_next s = (ok, s')" by (cases "mp_next s")
  have s': "scans s s'" using scans_next1 [of s] n by simp
  show ?case
  proof (cases "ok \<and> charsEx_test (mp_c s')")
    case True
    note s'
    also have "scans s' (snd (attr_loop s' (Some (js_string attr @ js_char (mp_c s')))))"
      using 1 [OF n [symmetric] refl] True by simp
    finally show ?thesis using True n by (simp add: attr_loop.simps [of s attr])
  next
    case False
    then show ?thesis using n s' by (auto simp add: attr_loop.simps [of s attr])
  qed
qed

lemma scans_getAttr: "scans s (snd (getAttr s))"
proof (cases "chars_test (mp_c (eatblanks s))")
  case False
  then show ?thesis by (simp add: getAttr_def scans_eatblanks)
next
  case True
  let ?r = "attr_loop (eatblanks s) (map_option (\<lambda>ch. [ch]) (mp_c (eatblanks s)))"
  have "scans s (eatblanks s)" by (rule scans_eatblanks)
  also have "scans (eatblanks s) (snd ?r)" by (rule scans_attr_loop)
  also have "scans (snd ?r) (eatblanks (snd ?r))" by (rule scans_eatblanks)
  finally show ?thesis using True by (simp add: getAttr_def Let_def split_beta)
qed

text \<open>\<open>_getString\<close>\<close>

function string_loop :: "MicroParser \<Rightarrow> char option \<Rightarrow> string \<Rightarrow> string \<times> MicroParser" where
  "string_loop s dchar str =
     (let (ok, s') = mp_next s in
      if \<not> ok then (str, s')
      else if mp_c s' = dchar \<and> mp_p s' \<noteq> Some BACKSLASH then (str, s')
      else string_loop s' dchar (str @ js_char (mp_c s')))"
  by pat_completeness auto

text \<open>The recursion of \<open>string_loop\<close> ends from every argument.\<close>

lemma string_loop_terminates: "All string_loop_dom"
  by (relation "measure (\<lambda>(s, dchar, str). remaining s)") (auto simp add: next_True_less)

termination string_loop
  by (rule string_loop_terminates)

declare string_loop.simps [simp del]

definition getString :: "MicroParser \<Rightarrow> string \<times> MicroParser" where
  "getString s =
     (let dchar = mp_c s;
          (str, s1) = string_loop s dchar [];
          s2 = (if mp_c s1 = None then syntaxError ''unclosed quote'' s1 else s1)
      in (str, snd (mp_next s2)))"

lemma scans_string_loop: "scans s (snd (string_loop s dchar str))"
proof (induction s dchar str rule: string_loop.induct)
  case (1 s dchar str)
  obtain ok s' where n: "mp_next s = (ok, s')" by (cases "mp_next s")
  have s': "scans s s'" using scans_next1 [of s] n by simp
  show ?case
  proof (cases "ok \<and> \<not> (mp_c s' = dchar \<and> mp_p s' \<noteq> Some BACKSLASH)")
    case True
    note s'
    also have "scans s' (snd (string_loop s' dchar (str @ js_char (mp_c s'))))"
      using 1 [OF n [symmetric]] True by auto
    finally show ?thesis using True n by (auto simp add: string_loop.simps [of s dchar str])
  next
    case False
    then show ?thesis using n s' by (auto simp add: string_loop.simps [of s dchar str])
  qed
qed

lemma scans_getString: "scans s (snd (getString s))"
proof -
  let ?r = "string_loop s (mp_c s) []"
  let ?s2 = "if mp_c (snd ?r) = None then syntaxError ''unclosed quote'' (snd ?r) else snd ?r"
  have "scans s (snd ?r)" by (rule scans_string_loop)
  also have "scans (snd ?r) ?s2" by (simp add: scans_refl scans_error1)
  also have "scans ?s2 (snd (mp_next ?s2))" by (rule scans_next1)
  finally show ?thesis by (simp add: getString_def Let_def split_beta)
qed

text \<open>
  \<open>_getValue\<close>. The loop of the unquoted case leaves the function when \<open>_next\<close> fails
  (\<open>Inl\<close>); otherwise it ends at a stop character (\<open>Inr\<close>).
\<close>

definition stops :: "char option list" where
  "stops = [Some CHR '','', Some CHR '')'', Some CHR '' '', Some TAB]"

function value_loop :: "MicroParser \<Rightarrow> string \<Rightarrow> (string \<times> MicroParser) + (string \<times> MicroParser)" where
  "value_loop s val =
     (if indexOf stops (mp_c s) < 0
      then (let val' = val @ js_char (mp_c s); (ok, s') = mp_next s in
            if \<not> ok then Inl (val', s') else value_loop s' val')
      else Inr (val, s))"
  by pat_completeness auto

text \<open>The recursion of \<open>value_loop\<close> ends from every argument.\<close>

lemma value_loop_terminates: "All value_loop_dom"
  by (relation "measure (\<lambda>(s, val). remaining s)") (auto simp add: next_True_less)

termination value_loop
  by (rule value_loop_terminates)

declare value_loop.simps [simp del]

definition getValue :: "MicroParser \<Rightarrow> string option \<times> MicroParser" where
  "getValue s =
     (let s1 = eatblanks s in
      if mp_c s1 = Some DQUOTE \<or> mp_c s1 = Some SQUOTE
      then (let (str, s2) = getString s1 in (Some str, eatblanks s2))
      else (case value_loop s1 [] of
              Inl (val, s2) \<Rightarrow> (Some val, s2)
            | Inr (val, s2) \<Rightarrow>
                (let v = trim val in (if v = ''null'' then None else Some v, eatblanks s2))))"

lemma scans_value_loop:
  "scans s (snd (case value_loop s val of Inl r \<Rightarrow> r | Inr r \<Rightarrow> r))"
proof (induction s val rule: value_loop.induct)
  case (1 s val)
  obtain ok s' where n: "mp_next s = (ok, s')" by (cases "mp_next s")
  have s': "scans s s'" using scans_next1 [of s] n by simp
  show ?case
  proof (cases "indexOf stops (mp_c s) < 0 \<and> ok")
    case True
    note s'
    also have "scans s' (snd (case value_loop s' (val @ js_char (mp_c s)) of Inl r \<Rightarrow> r | Inr r \<Rightarrow> r))"
      using 1 [OF _ refl n [symmetric]] True by simp
    finally show ?thesis using True n by (simp add: value_loop.simps [of s val])
  next
    case False
    then show ?thesis using n s' by (auto simp add: value_loop.simps [of s val] scans_refl)
  qed
qed

lemma scans_getValue: "scans s (snd (getValue s))"
proof -
  let ?s1 = "eatblanks s"
  have a: "scans s ?s1" by (rule scans_eatblanks)
  show ?thesis
  proof (cases "mp_c ?s1 = Some DQUOTE \<or> mp_c ?s1 = Some SQUOTE")
    case True
    note a
    also have "scans ?s1 (snd (getString ?s1))" by (rule scans_getString)
    also have "scans (snd (getString ?s1)) (eatblanks (snd (getString ?s1)))"
      by (rule scans_eatblanks)
    finally show ?thesis using True by (auto simp add: getValue_def Let_def split_beta)
  next
    case False
    have v: "scans ?s1 (snd (case value_loop ?s1 [] of Inl r \<Rightarrow> r | Inr r \<Rightarrow> r))"
      by (rule scans_value_loop)
    show ?thesis
    proof (cases "value_loop ?s1 []")
      case (Inl r)
      then show ?thesis using scans_trans [OF a v] False
        by (simp add: getValue_def Let_def split_beta)
    next
      case (Inr r)
      have "scans s (snd r)" using scans_trans [OF a v] Inr by simp
      also have "scans (snd r) (eatblanks (snd r))" by (rule scans_eatblanks)
      finally show ?thesis using False Inr by (simp add: getValue_def Let_def split_beta)
    qed
  qed
qed

text \<open>\<open>parse\<close>\<close>

record descriptor =
  tag :: string
  id' :: "string option"
  classes :: "string list"
  attrs :: "(string \<times> string option) list"

text \<open>
  A block of \<open>parse\<close> either returns \<open>this._syntaxError(...)\<close> (\<open>Inl\<close>, with the parser
  as the error left it) or goes on (\<open>Inr\<close>). \<open>state_of\<close> is the parser it ends in.
\<close>

fun state_of :: "MicroParser + ('a \<times> MicroParser) \<Rightarrow> MicroParser" where
  "state_of (Inl e) = e"
| "state_of (Inr (r, s)) = s"

lemma state_of_Inr [simp]: "state_of (Inr p) = snd p"
  by (cases p) simp

text \<open>The block \<open>// Get the ID\<close>.\<close>

definition get_id :: "MicroParser \<Rightarrow> MicroParser + (string option \<times> MicroParser)" where
  "get_id s =
     (if mp_c s = Some CHR ''#''
      then (let (i, s1) = getAttr (snd (mp_next s)) in
            if i = None then Inl (syntaxError ''invalid ID'' s1) else Inr (i, s1))
      else Inr (None, s))"

lemma scans_get_id: "scans s (state_of (get_id s))"
proof -
  let ?g = "getAttr (snd (mp_next s))"
  have "scans s (snd (mp_next s))" by (rule scans_next1)
  also have "scans (snd (mp_next s)) (snd ?g)" by (rule scans_getAttr)
  finally have g: "scans s (snd ?g)" .
  then have "scans s (syntaxError ''invalid ID'' (snd ?g))" by (rule scans_error)
  then show ?thesis using g by (simp add: get_id_def Let_def split_beta scans_refl)
qed

text \<open>The block \<open>// Get the list of classes\<close>.\<close>

function classes_loop :: "MicroParser \<Rightarrow> string list \<Rightarrow> MicroParser + (string list \<times> MicroParser)" where
  "classes_loop s cls =
     (if mp_c s = Some CHR ''.''
      then (let (c_class, s1) = getAttr (snd (mp_next s)) in
            case c_class of
              None \<Rightarrow> Inl (syntaxError ''unexpected class'' s1)
            | Some cl \<Rightarrow> classes_loop s1 (cls @ [cl]))
      else Inr (cls, s))"
  by pat_completeness auto

text \<open>The recursion of \<open>classes_loop\<close> ends from every argument.\<close>

lemma classes_loop_terminates: "All classes_loop_dom"
proof (relation "measure (\<lambda>(s, cls). remaining s)")
  show "wf (measure (\<lambda>(s, cls). remaining s))" by simp
next
  fix s :: MicroParser and cls :: "string list" and x c_class s1 cl
  assume c: "mp_c s = Some CHR ''.''" and x: "x = getAttr (snd (mp_next s))"
    and p: "(c_class, s1) = x"
  have "s1 = snd (getAttr (snd (mp_next s)))" using x p by (metis snd_conv)
  then have "remaining s1 \<le> remaining (snd (mp_next s))"
    by (simp add: scans_remaining [OF scans_getAttr])
  also have "\<dots> < remaining s" using c by (simp add: remaining_next_less not_at_end_Some)
  finally show "((s1, cls @ [cl]), (s, cls)) \<in> measure (\<lambda>(s, cls). remaining s)" by simp
qed

termination classes_loop
  by (rule classes_loop_terminates)

declare classes_loop.simps [simp del]

lemma scans_classes_loop: "scans s (state_of (classes_loop s cls))"
proof (induction s cls rule: classes_loop.induct)
  case (1 s cls)
  let ?r = "getAttr (snd (mp_next s))"
  have "scans s (snd (mp_next s))" by (rule scans_next1)
  also have "scans (snd (mp_next s)) (snd ?r)" by (rule scans_getAttr)
  finally have a: "scans s (snd ?r)" .
  show ?case
  proof (cases "mp_c s = Some CHR ''.''")
    case False
    then show ?thesis by (simp add: classes_loop.simps [of s cls] scans_refl)
  next
    case True
    show ?thesis
    proof (cases "fst ?r")
      case None
      then show ?thesis using True scans_error [OF a]
        by (simp add: classes_loop.simps [of s cls] split_beta)
    next
      case (Some cl)
      note a
      also have "scans (snd ?r) (state_of (classes_loop (snd ?r) (cls @ [cl])))"
        using 1 [OF True refl prod.collapse Some] by simp
      finally show ?thesis using True Some by (simp add: classes_loop.simps [of s cls] split_beta)
    qed
  qed
qed

text \<open>The block \<open>// Get the attributes\<close>: the loop, then the closing parenthesis.\<close>

function attrs_loop ::
  "MicroParser \<Rightarrow> (string \<times> string option) list
    \<Rightarrow> MicroParser + ((string \<times> string option) list \<times> MicroParser)" where
  "attrs_loop s ats =
     (let (attr, s1) = getAttr s in
      case attr of
        None \<Rightarrow> Inl (syntaxError ''unexpected attribute'' s1)
      | Some a \<Rightarrow>
          (let s2 = eatblanks s1;
               (val, s3) = (if mp_c s2 = Some CHR ''=''
                            then getValue (eatblanks (snd (mp_next s2)))
                            else (None, s2));
               ats' = AList.update a val ats
           in if mp_c s3 = Some CHR '')'' then Inr (ats', s3)
              else if mp_c s3 \<noteq> Some CHR '','' then Inl (syntaxError ''unexpected character'' s3)
              else attrs_loop (snd (mp_next s3)) ats'))"
  by pat_completeness auto

text \<open>The recursion of \<open>attrs_loop\<close> ends from every argument.\<close>

lemma attrs_loop_terminates: "All attrs_loop_dom"
proof (relation "measure (\<lambda>(s, ats). remaining s)")
  show "wf (measure (\<lambda>(s, ats). remaining s))" by simp
next
  fix s :: MicroParser and ats :: "(string \<times> string option) list"
    and x attr s1 a s2 xa val s3 ats'
  assume x: "x = getAttr s" and p: "(attr, s1) = x" and s2: "s2 = eatblanks s1"
    and xa: "xa = (if mp_c s2 = Some CHR ''='' then getValue (eatblanks (snd (mp_next s2))) else (None, s2))"
    and q: "(val, s3) = xa" and c: "\<not> mp_c s3 \<noteq> Some CHR '',''"
  have "s1 = snd (getAttr s)" using x p by (metis snd_conv)
  then have 1: "remaining s1 \<le> remaining s" by (simp add: scans_remaining [OF scans_getAttr])
  have 2: "remaining s2 \<le> remaining s1" using s2 by (simp add: scans_remaining [OF scans_eatblanks])
  have "s3 = snd xa" using q by (metis snd_conv)
  then have 3: "remaining s3 \<le> remaining s2"
    using xa scans_remaining [OF scans_getValue, of "eatblanks (snd (mp_next s2))"]
      scans_remaining [OF scans_eatblanks, of "snd (mp_next s2)"] remaining_next_le [of s2]
    by (auto split: if_splits)
  have "remaining (snd (mp_next s3)) < remaining s3"
    using c by (simp add: remaining_next_less not_at_end_Some)
  then show "((snd (mp_next s3), ats'), (s, ats)) \<in> measure (\<lambda>(s, ats). remaining s)"
    using 1 2 3 by simp
qed

termination attrs_loop
  by (rule attrs_loop_terminates)

declare attrs_loop.simps [simp del]

text \<open>The value of one attribute, as the loop reads it after the name.\<close>

definition attr_value :: "MicroParser \<Rightarrow> string option \<times> MicroParser" where
  "attr_value s2 =
     (if mp_c s2 = Some CHR ''='' then getValue (eatblanks (snd (mp_next s2))) else (None, s2))"

lemma attrs_loop_unfold:
  "attrs_loop s ats =
     (case fst (getAttr s) of
        None \<Rightarrow> Inl (syntaxError ''unexpected attribute'' (snd (getAttr s)))
      | Some a \<Rightarrow>
          (let r = attr_value (eatblanks (snd (getAttr s)));
               ats' = AList.update a (fst r) ats
           in if mp_c (snd r) = Some CHR '')'' then Inr (ats', snd r)
              else if mp_c (snd r) \<noteq> Some CHR '','' then Inl (syntaxError ''unexpected character'' (snd r))
              else attrs_loop (snd (mp_next (snd r))) ats'))"
  by (simp add: attrs_loop.simps [of s ats] attr_value_def Let_def split_beta split: option.split)

lemma scans_attr_value: "scans s (snd (attr_value s))"
proof (cases "mp_c s = Some CHR ''=''")
  case True
  have "scans s (snd (mp_next s))" by (rule scans_next1)
  also have "scans (snd (mp_next s)) (eatblanks (snd (mp_next s)))" by (rule scans_eatblanks)
  also have "scans (eatblanks (snd (mp_next s))) (snd (getValue (eatblanks (snd (mp_next s)))))"
    by (rule scans_getValue)
  finally show ?thesis using True by (simp add: attr_value_def)
next
  case False
  then show ?thesis by (simp add: attr_value_def scans_refl)
qed

lemma scans_attrs_loop: "scans s (state_of (attrs_loop s ats))"
proof (induction s ats rule: attrs_loop.induct)
  case (1 s ats)
  let ?g = "getAttr s"
  have g: "scans s (snd ?g)" by (rule scans_getAttr)
  show ?case
  proof (cases "fst ?g")
    case None
    then show ?thesis using scans_error [OF g] by (simp add: attrs_loop_unfold [of s ats])
  next
    case (Some a)
    let ?r = "attr_value (eatblanks (snd ?g))"
    note g
    also have "scans (snd ?g) (eatblanks (snd ?g))" by (rule scans_eatblanks)
    also have "scans (eatblanks (snd ?g)) (snd ?r)" by (rule scans_attr_value)
    finally have r: "scans s (snd ?r)" .
    show ?thesis
    proof (cases "mp_c (snd ?r) = Some CHR '',''")
      case False
      then show ?thesis using Some r scans_error [OF r]
        by (simp add: attrs_loop_unfold [of s ats] Let_def)
    next
      case True
      note r
      also have "scans (snd ?r) (snd (mp_next (snd ?r)))" by (rule scans_next1)
      also have "scans (snd (mp_next (snd ?r)))
          (state_of (attrs_loop (snd (mp_next (snd ?r))) (AList.update a (fst ?r) ats)))"
        using 1 [OF refl prod.collapse Some refl refl prod.collapse refl] True
        by (simp add: attr_value_def)
      finally show ?thesis using Some True by (simp add: attrs_loop_unfold [of s ats] Let_def)
    qed
  qed
qed

definition get_attrs ::
  "MicroParser \<Rightarrow> MicroParser + ((string \<times> string option) list \<times> MicroParser)" where
  "get_attrs s =
     (if mp_c s = Some CHR ''(''
      then (case attrs_loop (snd (mp_next s)) [] of
              Inl e \<Rightarrow> Inl e
            | Inr (ats, s1) \<Rightarrow>
                if mp_c s1 \<noteq> Some CHR '')'' then Inl (syntaxError ''expected )'' s1)
                else Inr (ats, snd (mp_next s1)))
      else Inr ([], s))"

lemma scans_get_attrs: "scans s (state_of (get_attrs s))"
proof (cases "mp_c s = Some CHR ''(''")
  case False
  then show ?thesis by (simp add: get_attrs_def scans_refl)
next
  case True
  let ?r = "attrs_loop (snd (mp_next s)) []"
  have "scans s (snd (mp_next s))" by (rule scans_next1)
  also have "scans (snd (mp_next s)) (state_of ?r)" by (rule scans_attrs_loop)
  finally have a: "scans s (state_of ?r)" .
  show ?thesis
  proof (cases ?r)
    case (Inl e)
    then show ?thesis using True a by (simp add: get_attrs_def)
  next
    case (Inr p)
    obtain ats s1 where p: "p = (ats, s1)" by (cases p)
    have s1: "scans s s1" using a Inr p by simp
    then show ?thesis using True Inr p scans_error [OF s1] scans_next [OF s1]
      by (simp add: get_attrs_def)
  qed
qed

text \<open>One pass of the outer loop of \<open>parse\<close>, up to \<open>results.push\<close>.\<close>

definition segment :: "MicroParser \<Rightarrow> MicroParser + (descriptor \<times> MicroParser)" where
  "segment s =
     (let (t, s1) = getAttr (snd (mp_next s));
          tg = (case t of None \<Rightarrow> ''div'' | Some x \<Rightarrow> x)
      in case get_id s1 of
           Inl e \<Rightarrow> Inl e
         | Inr (i, s2) \<Rightarrow>
             (case classes_loop s2 [] of
                Inl e \<Rightarrow> Inl e
              | Inr (cls, s3) \<Rightarrow>
                  (case get_attrs s3 of
                     Inl e \<Rightarrow> Inl e
                   | Inr (ats, s4) \<Rightarrow>
                       Inr (\<lparr>tag = tg, id' = i, classes = cls, attrs = ats\<rparr>, eatblanks s4))))"

lemma scans_segment: "scans (snd (mp_next s)) (state_of (segment s))"
proof -
  let ?g = "getAttr (snd (mp_next s))"
  have g: "scans (snd (mp_next s)) (snd ?g)" by (rule scans_getAttr)
  show ?thesis
  proof (cases "get_id (snd ?g)")
    case (Inl e)
    then show ?thesis using scans_trans [OF g scans_get_id [of "snd ?g"]]
      by (simp add: segment_def Let_def split_beta)
  next
    case i: (Inr p)
    obtain i s2 where p: "p = (i, s2)" by (cases p)
    have s2: "scans (snd (mp_next s)) s2"
      using scans_trans [OF g scans_get_id [of "snd ?g"]] i p by simp
    show ?thesis
    proof (cases "classes_loop s2 []")
      case (Inl e)
      then show ?thesis using i p scans_trans [OF s2 scans_classes_loop [of s2 "[]"]]
        by (simp add: segment_def Let_def split_beta)
    next
      case c: (Inr q)
      obtain cls s3 where q: "q = (cls, s3)" by (cases q)
      have s3: "scans (snd (mp_next s)) s3"
        using scans_trans [OF s2 scans_classes_loop [of s2 "[]"]] c q by simp
      show ?thesis
      proof (cases "get_attrs s3")
        case (Inl e)
        then show ?thesis using i p c q scans_trans [OF s3 scans_get_attrs [of s3]]
          by (simp add: segment_def Let_def split_beta)
      next
        case a: (Inr r)
        obtain ats s4 where r: "r = (ats, s4)" by (cases r)
        have "scans (snd (mp_next s)) s4"
          using scans_trans [OF s3 scans_get_attrs [of s3]] a r by simp
        also have "scans s4 (eatblanks s4)" by (rule scans_eatblanks)
        finally show ?thesis using i p c q a r
          by (simp add: segment_def Let_def split_beta)
      qed
    qed
  qed
qed

text \<open>The outer loop of \<open>parse\<close>; a syntax error makes \<open>parse\<close> return \<open>null\<close>.\<close>

function parse_loop :: "MicroParser \<Rightarrow> descriptor list \<Rightarrow> descriptor list option \<times> MicroParser" where
  "parse_loop s results =
     (case segment s of
        Inl e \<Rightarrow> (None, e)
      | Inr (d, s1) \<Rightarrow>
          (let results' = results @ [d] in
           if mp_c s1 = None then (Some results', s1)
           else if mp_c s1 \<noteq> Some CHR ''>'' then (None, syntaxError ''expected > or EOF'' s1)
           else parse_loop s1 results'))"
  by pat_completeness auto

text \<open>The recursion of \<open>parse_loop\<close> ends from every argument.\<close>

lemma parse_loop_terminates: "All parse_loop_dom"
proof (relation "measure (\<lambda>(s, results). remaining s)")
  show "wf (measure (\<lambda>(s, results). remaining s))" by simp
next
  fix s :: MicroParser and results :: "descriptor list" and b d s1 results'
  assume seg: "segment s = Inr b" and b: "(d, s1) = b" and c: "\<not> mp_c s1 \<noteq> Some CHR ''>''"
  have le: "remaining s1 \<le> remaining (snd (mp_next s))"
    using scans_remaining [OF scans_segment [of s]] seg b by auto
  have "\<not> at_end s1" using c by (simp add: not_at_end_Some)
  then have "0 < remaining s1" by (simp add: at_end_iff)
  then have "\<not> at_end s" using le remaining_next_le [of s] by (simp add: at_end_iff)
  then have "remaining (snd (mp_next s)) < remaining s" by (rule remaining_next_less)
  then show "((s1, results'), (s, results)) \<in> measure (\<lambda>(s, results). remaining s)"
    using le by simp
qed

termination parse_loop
  by (rule parse_loop_terminates)

declare parse_loop.simps [simp del]

definition parse_run :: "string \<Rightarrow> descriptor list option \<times> MicroParser" where
  "parse_run t = parse_loop (start t) []"

definition parse :: "string \<Rightarrow> descriptor list option \<times> syntax_error list" where
  "parse t = (let (r, s) = parse_run t in (r, console s))"



section \<open>The document\<close>

text \<open>
  The engine works on the elements of a browser document. An element is modelled by what
  the engine reads and writes: its tag name, its attributes in order (each name once) and
  its child nodes, which are opaque here. As in the DOM, \<open>id\<close> and \<open>class\<close> are
  attributes: \<open>el.id = v\<close> sets the attribute \<open>id\<close>, and \<open>el.classList\<close> is the list of
  tokens of the attribute \<open>class\<close>. Attribute names are compared as they are written.
\<close>

record 'n element =
  tagName :: string
  attributes :: "(string \<times> string) list"
  childNodes :: "'n list"

definition document_createElement :: "string \<Rightarrow> 'n element" where
  "document_createElement t = \<lparr>tagName = t, attributes = [], childNodes = []\<rparr>"

definition setAttribute :: "string \<Rightarrow> string \<Rightarrow> 'n element \<Rightarrow> 'n element" where
  "setAttribute k v el = el\<lparr>attributes := AList.update k v (attributes el)\<rparr>"

definition removeAttribute :: "string \<Rightarrow> 'n element \<Rightarrow> 'n element" where
  "removeAttribute k el = el\<lparr>attributes := AList.delete k (attributes el)\<rparr>"

definition getAttribute :: "'n element \<Rightarrow> string \<Rightarrow> string option" where
  "getAttribute el k = map_of (attributes el) k"

definition getAttributeNames :: "'n element \<Rightarrow> string list" where
  "getAttributeNames el = map fst (attributes el)"

text \<open>
  \<open>el.classList\<close>: the attribute \<open>class\<close> split at ASCII white space, each token once, in
  the order of first occurrence. \<open>classList.add\<close> appends a token that is not there yet and
  writes the tokens back, joined by single spaces. (The DOM raises for an empty token or
  one with white space in it; the engine only adds identifiers read by the parser and
  tokens of another class list.)
\<close>

definition ascii_ws :: "char \<Rightarrow> bool" where
  "ascii_ws ch = (ch = TAB \<or> ch = LF \<or> ch = CHR 0x0C \<or> ch = CR \<or> ch = CHR '' '')"

fun tokens :: "string \<Rightarrow> string \<Rightarrow> string list" where
  "tokens cur [] = (if cur = [] then [] else [cur])"
| "tokens cur (x # xs) =
     (if ascii_ws x then (if cur = [] then tokens [] xs else cur # tokens [] xs)
      else tokens (cur @ [x]) xs)"

definition ordered_set :: "'a list \<Rightarrow> 'a list" where
  "ordered_set xs = foldl (\<lambda>acc x. if x \<in> set acc then acc else acc @ [x]) [] xs"

fun serialize :: "string list \<Rightarrow> string" where
  "serialize [] = []"
| "serialize [t] = t"
| "serialize (t # ts) = t @ '' '' @ serialize ts"

definition classList :: "'n element \<Rightarrow> string list" where
  "classList el =
     (case getAttribute el ''class'' of None \<Rightarrow> [] | Some v \<Rightarrow> ordered_set (tokens [] v))"

definition classList_add :: "string \<Rightarrow> 'n element \<Rightarrow> 'n element" where
  "classList_add c el =
     (let ts = classList el; ts' = (if c \<in> set ts then ts else ts @ [c])
      in setAttribute ''class'' (serialize ts') el)"

section \<open>The conversion engine\<close>

text \<open>
  \<open>createElement(def)\<close>; \<open>apply_attrs\<close> is its loop over \<open>def.attrs\<close>, where the null
  value removes the attribute.
\<close>

definition apply_attrs :: "(string \<times> string option) list \<Rightarrow> 'n element \<Rightarrow> 'n element" where
  "apply_attrs ats el =
     fold (\<lambda>(k, v) el. case v of None \<Rightarrow> removeAttribute k el
                              | Some x \<Rightarrow> setAttribute k x el) ats el"

definition createElement :: "descriptor \<Rightarrow> 'n element" where
  "createElement d =
     (let el = document_createElement (tag d);
          el = (case id' d of None \<Rightarrow> el | Some i \<Rightarrow> setAttribute ''id'' i el);
          el = fold classList_add (classes d) el
      in apply_attrs (attrs d) el)"

text \<open>
  \<open>getAttrs(el)\<close>: an object with one property for each attribute. Assigning to the
  property \<open>__proto__\<close> of an object does not create a property.
\<close>

definition getAttrs :: "'n element \<Rightarrow> (string \<times> string) list" where
  "getAttrs el =
     fold (\<lambda>(n, v) ats. if n = ''__proto__'' then ats else AList.update n v ats)
       (attributes el) []"

text \<open>\<open>arrayUnique(ar)\<close>\<close>

definition arrayUnique :: "'a list \<Rightarrow> 'a list" where
  "arrayUnique ar =
     map snd (filter (\<lambda>(index, item). indexOf ar item = int index) (enumerate 0 ar))"

text \<open>
  \<open>convert(el, def)\<close>. \<open>def.attrs[prop] === undefined\<close> holds when \<open>def.attrs\<close> has no
  property \<open>prop\<close> of its own and inherits none from \<open>Object.prototype\<close>. The copy made
  through JSON is the descriptor itself, values being immutable here. \<open>copy_attrs\<close> is
  the loop over \<open>el.getAttributeNames()\<close>.
\<close>

definition exception :: "string list" where
  "exception = [''class'']"

definition object_prototype :: "string list" where
  "object_prototype =
     [''constructor'', ''__defineGetter__'', ''__defineSetter__'', ''hasOwnProperty'',
      ''__lookupGetter__'', ''__lookupSetter__'', ''isPrototypeOf'', ''propertyIsEnumerable'',
      ''toString'', ''valueOf'', ''__proto__'', ''toLocaleString'']"

definition is_undefined :: "(string \<times> 'v) list \<Rightarrow> string \<Rightarrow> bool" where
  "is_undefined ats prop = (map_of ats prop = None \<and> prop \<notin> set object_prototype)"

definition copy_attrs ::
  "'n element \<Rightarrow> (string \<times> string option) list \<Rightarrow> (string \<times> string option) list" where
  "copy_attrs el ats =
     fold (\<lambda>prop ats.
             if prop \<notin> set exception \<and> is_undefined ats prop
             then AList.update prop (getAttribute el prop) ats else ats)
       (getAttributeNames el) ats"

definition convert :: "'n element \<Rightarrow> descriptor \<Rightarrow> 'n element" where
  "convert el d =
     (let ats = copy_attrs el (attrs d);
          cls = arrayUnique (classes d @ classList el);
          converted = createElement (d\<lparr>attrs := ats, classes := cls\<rparr>)
      in converted\<lparr>childNodes := childNodes converted @ childNodes el\<rparr>)"

text \<open>
  \<open>String.prototype.replace\<close> with a string as the pattern: the first occurrence only is
  replaced, and in the replacement text \<open>$$\<close> stands for \<open>$\<close>, \<open>$&\<close> for the match,
  \<open>$`\<close> for the text before it and \<open>$'\<close> for the text after it.
\<close>

fun find_first :: "string \<Rightarrow> string \<Rightarrow> (string \<times> string) option" where
  "find_first pat [] = (if pat = [] then Some ([], []) else None)"
| "find_first pat (x # xs) =
     (if prefix pat (x # xs) then Some ([], drop (length pat) (x # xs))
      else map_option (\<lambda>(b, a). (x # b, a)) (find_first pat xs))"

fun get_substitution :: "string \<Rightarrow> string \<Rightarrow> string \<Rightarrow> string \<Rightarrow> string" where
  "get_substitution m b a (c # d # r) =
     (if c = CHR ''$'' \<and> d = CHR ''$'' then CHR ''$'' # get_substitution m b a r
      else if c = CHR ''$'' \<and> d = CHR ''&'' then m @ get_substitution m b a r
      else if c = CHR ''$'' \<and> d = CHR 0x60 then b @ get_substitution m b a r
      else if c = CHR ''$'' \<and> d = SQUOTE then a @ get_substitution m b a r
      else c # get_substitution m b a (d # r))"
| "get_substitution m b a r = r"

definition js_replace :: "string \<Rightarrow> string \<Rightarrow> string \<Rightarrow> string" where
  "js_replace s pat repl =
     (case find_first pat s of
        None \<Rightarrow> s
      | Some (b, a) \<Rightarrow> b @ get_substitution pat b a repl @ a)"

text \<open>
  The function passed to \<open>forEach\<close> in \<open>convertTags\<close>, up to the replacement in the tree:
  the new elements of the chain, outermost first, and the converted element after the
  substitution of the placeholders.
\<close>

definition substitute :: "(string \<times> string) list \<Rightarrow> string \<Rightarrow> string" where
  "substitute elAttrs v =
     fold (\<lambda>(attr, val) acc.
             js_replace acc (''${'' @ attr @ ''}'') (if val = [] then [] else val))
       elAttrs v"

definition convertElement ::
  "descriptor list \<Rightarrow> descriptor \<Rightarrow> 'n element \<Rightarrow> 'n element list \<times> 'n element" where
  "convertElement elements target el =
     (let elAttrs = getAttrs el;
          created = map createElement elements;
          converted = convert el target;
          convertedAttrs = map (\<lambda>(attrc, v). (attrc, substitute elAttrs v)) (getAttrs converted)
      in (created, fold (\<lambda>(attr, v). setAttribute attr v) convertedAttrs converted))"

text \<open>
  \<open>convertTags(conversions)\<close>. The document is a parameter: \<open>querySelectorAll\<close> gives the
  matched nodes (or raises, for a selector that is not valid), \<open>element\<close> reads a node, and
  \<open>replaceChild\<close> puts the new chain, with the converted element innermost, in the place of
  the node. \<open>conversions\<close> is the list of the properties of the object in the order of
  \<open>for ... in\<close>. The result is the exception that ended the call, if any, with the
  document and the console as they are then.
\<close>

datatype js_error = TypeError | SyntaxError

record ('d, 'h, 'n) document =
  querySelectorAll :: "string \<Rightarrow> 'd \<Rightarrow> js_error + 'h list"
  element :: "'d \<Rightarrow> 'h \<Rightarrow> 'n element"
  replaceChild :: "'n element list \<times> 'n element \<Rightarrow> 'h \<Rightarrow> 'd \<Rightarrow> 'd"

fun convert_rules ::
  "('d, 'h, 'n) document \<Rightarrow> (string \<times> string) list \<Rightarrow> 'd \<Rightarrow> syntax_error list
    \<Rightarrow> js_error option \<times> 'd \<times> syntax_error list" where
  "convert_rules api [] doc log = (None, doc, log)"
| "convert_rules api ((sel, conversion) # rest) doc log =
     (let (elements, errors) = parse conversion; log' = log @ errors in
      case elements of
        None \<Rightarrow> (Some TypeError, doc, log')
      | Some es \<Rightarrow>
          (case querySelectorAll api sel doc of
             Inl e \<Rightarrow> (Some e, doc, log')
           | Inr hs \<Rightarrow>
               (case rev es of
                  [] \<Rightarrow> if hs = [] then convert_rules api rest doc log'
                        else (Some SyntaxError, doc, log')
                | target # ancestors \<Rightarrow>
                    convert_rules api rest
                      (fold (\<lambda>h doc. replaceChild api
                               (convertElement (rev ancestors) target (element api doc h)) h doc)
                         hs doc)
                      log')))"

definition convertTags ::
  "('d, 'h, 'n) document \<Rightarrow> (string \<times> string) list option \<Rightarrow> 'd
    \<Rightarrow> js_error option \<times> 'd \<times> syntax_error list" where
  "convertTags api conversions doc =
     (case conversions of None \<Rightarrow> (None, doc, []) | Some rules \<Rightarrow> convert_rules api rules doc [])"

definition default_div :: descriptor where
  "default_div = \<lparr>tag = ''div'', id' = None, classes = [], attrs = []\<rparr>"


text \<open>A document of elements without children, for examples: a node is its index.\<close>

definition flat_document :: "(nat element list, nat, nat) document" where
  "flat_document =
     \<lparr>querySelectorAll = (\<lambda>sel doc. Inr (filter (\<lambda>i. tagName (doc ! i) = sel) [0..<length doc])),
      element = (\<lambda>doc h. doc ! h),
      replaceChild = (\<lambda>(created, converted) h doc.
        doc[h := (case created of [] \<Rightarrow> converted | root # inner \<Rightarrow> root)])\<rparr>"




subsection \<open>The parser on a text and on the text followed by a closing angle\<close>

text \<open>
  Two runs of the parser, on a text and on the same text followed by \<open>>\<close>. They go in
  \<open>lockstep\<close> as long as the first has a current character; when the first reaches the
  end of its text, the second is \<open>ahead\<close> with the added \<open>>\<close> as its current character.
  Inside a quoted string or a value the second run reads the \<open>>\<close> and reaches the end of
  its text in turn.
\<close>

definition lockstep0 :: "MicroParser \<Rightarrow> MicroParser \<Rightarrow> bool" where
  "lockstep0 s s' =
     (mp_txt s' = mp_txt s @ ''>'' \<and> mp_pos s' = mp_pos s \<and> mp_c s' = mp_c s \<and>
      mp_p s' = mp_p s \<and> console s' = console s \<and> mp_pos s \<le> length (mp_txt s))"

definition lockstep :: "MicroParser \<Rightarrow> MicroParser \<Rightarrow> bool" where
  "lockstep s s' = (lockstep0 s s' \<and> mp_c s \<noteq> None)"

definition ahead :: "MicroParser \<Rightarrow> MicroParser \<Rightarrow> bool" where
  "ahead s s' =
     (mp_txt s' = mp_txt s @ ''>'' \<and> at_end s \<and> mp_c s' = Some CHR ''>'' \<and>
      mp_pos s' = length (mp_txt s') \<and> console s' = console s)"

definition follows :: "MicroParser \<Rightarrow> MicroParser \<Rightarrow> bool" where
  "follows s s' = (lockstep s s' \<or> ahead s s')"

section \<open>Facts about the parser\<close>


lemma console_next [simp]: "console (snd (mp_next s)) = console s"
  by (simp add: mp_next_def)

lemma console_syntaxError_ne: "console (syntaxError x s) \<noteq> []"
  by (simp add: syntaxError_def)

lemma console_eatblanks [simp]: "console (eatblanks s) = console s"
proof (induction s rule: eatblanks.induct)
  case (1 s)
  then show ?case by (cases "0 \<le> indexOf blanks (mp_c s)") (simp_all add: eatblanks.simps [of s])
qed

lemma console_attr_loop [simp]: "console (snd (attr_loop s attr)) = console s"
proof (induction s attr rule: attr_loop.induct)
  case (1 s attr)
  obtain ok s' where n: "mp_next s = (ok, s')" by (cases "mp_next s")
  have c: "console s' = console s" using console_next [of s] n by simp
  show ?case
  proof (cases "ok \<and> charsEx_test (mp_c s')")
    case True
    then show ?thesis using 1 [OF n [symmetric] refl] n c by (simp add: attr_loop.simps [of s attr])
  next
    case False
    then show ?thesis using n c by (auto simp add: attr_loop.simps [of s attr])
  qed
qed

lemma console_getAttr [simp]: "console (snd (getAttr s)) = console s"
  by (simp add: getAttr_def Let_def split_beta)

lemma console_string_loop [simp]: "console (snd (string_loop s dchar str)) = console s"
proof (induction s dchar str rule: string_loop.induct)
  case (1 s dchar str)
  obtain ok s' where n: "mp_next s = (ok, s')" by (cases "mp_next s")
  have c: "console s' = console s" using console_next [of s] n by simp
  show ?case
  proof (cases "ok \<and> \<not> (mp_c s' = dchar \<and> mp_p s' \<noteq> Some BACKSLASH)")
    case True
    then show ?thesis using 1 [OF n [symmetric]] n c
      by (auto simp add: string_loop.simps [of s dchar str])
  next
    case False
    then show ?thesis using n c by (auto simp add: string_loop.simps [of s dchar str])
  qed
qed

text \<open>The loop of \<open>_getString\<close> ends with \<open>_c\<close> being \<open>null\<close> only at the end of the text.\<close>

lemma string_loop_None_at_end:
  "mp_c (snd (string_loop s dchar str)) = None \<Longrightarrow> at_end (snd (string_loop s dchar str))"
proof (induction s dchar str rule: string_loop.induct)
  case (1 s dchar str)
  obtain ok s' where n: "mp_next s = (ok, s')" by (cases "mp_next s")
  show ?case
  proof (cases ok)
    case False
    then have "at_end s'" using n by (auto simp add: mp_next_def at_end_def split: if_splits)
    then show ?thesis using n False by (simp add: string_loop.simps [of s dchar str])
  next
    case True
    then have c: "mp_c s' \<noteq> None" using n by (auto simp add: mp_next_def split: if_splits)
    show ?thesis
    proof (cases "mp_c s' = dchar \<and> mp_p s' \<noteq> Some BACKSLASH")
      case b: True
      then show ?thesis using 1(2) n True c by (simp add: string_loop.simps [of s dchar str])
    next
      case b: False
      then show ?thesis using 1 n True
        by (auto simp add: string_loop.simps [of s dchar str])
    qed
  qed
qed

lemma getString_console:
  "console (snd (getString s)) =
     (let s1 = snd (string_loop s (mp_c s) []) in
      if mp_c s1 = None then console s @ [(mp_pos s1, None, ''unclosed quote'')] else console s)"
  by (simp add: getString_def Let_def split_beta syntaxError_def)

lemma getString_at_end: "console (snd (getString s)) \<noteq> console s \<Longrightarrow> at_end (snd (getString s))"
proof -
  assume a: "console (snd (getString s)) \<noteq> console s"
  let ?s1 = "snd (string_loop s (mp_c s) [])"
  have n: "mp_c ?s1 = None" using a by (auto simp add: getString_console Let_def split: if_splits)
  then have "at_end ?s1" by (rule string_loop_None_at_end)
  then have "at_end (syntaxError ''unclosed quote'' ?s1)" by (simp add: at_end_iff)
  then have "at_end (snd (mp_next (syntaxError ''unclosed quote'' ?s1)))"
    by (rule scans_at_end [OF scans_next1])
  then show ?thesis using n by (simp add: getString_def Let_def split_beta)
qed

lemma console_value_loop [simp]:
  "console (snd (case value_loop s val of Inl r \<Rightarrow> r | Inr r \<Rightarrow> r)) = console s"
proof (induction s val rule: value_loop.induct)
  case (1 s val)
  obtain ok s' where n: "mp_next s = (ok, s')" by (cases "mp_next s")
  have c: "console s' = console s" using console_next [of s] n by simp
  show ?case
  proof (cases "indexOf stops (mp_c s) < 0 \<and> ok")
    case True
    then show ?thesis using 1 [OF _ refl n [symmetric]] n c by (simp add: value_loop.simps [of s val])
  next
    case False
    then show ?thesis using n c by (auto simp add: value_loop.simps [of s val])
  qed
qed

lemma getValue_at_end: "console (snd (getValue s)) \<noteq> console s \<Longrightarrow> at_end (snd (getValue s))"
proof -
  assume a: "console (snd (getValue s)) \<noteq> console s"
  let ?s1 = "eatblanks s"
  show ?thesis
  proof (cases "mp_c ?s1 = Some DQUOTE \<or> mp_c ?s1 = Some SQUOTE")
    case True
    then have v: "snd (getValue s) = eatblanks (snd (getString ?s1))"
      by (auto simp add: getValue_def Let_def split_beta)
    then have "console (snd (getString ?s1)) \<noteq> console ?s1" using a by simp
    then have "at_end (snd (getString ?s1))" by (rule getString_at_end)
    then show ?thesis using v scans_at_end [OF scans_eatblanks] by simp
  next
    case False
    have "console (snd (getValue s)) = console s"
    proof (cases "value_loop ?s1 []")
      case (Inl r)
      then show ?thesis using False console_value_loop [of ?s1 "[]"]
        by (simp add: getValue_def Let_def split_beta)
    next
      case (Inr r)
      then show ?thesis using False console_value_loop [of ?s1 "[]"]
        by (simp add: getValue_def Let_def split_beta)
    qed
    then show ?thesis using a by simp
  qed
qed

lemma attr_value_at_end:
  "console (snd (attr_value s)) \<noteq> console s \<Longrightarrow> at_end (snd (attr_value s))"
  using getValue_at_end [of "eatblanks (snd (mp_next s))"]
  by (auto simp add: attr_value_def split: if_splits)

lemma attr_value_console: "mp_c (snd (attr_value s)) = Some ch \<Longrightarrow> console (snd (attr_value s)) = console s"
  using attr_value_at_end [of s] by (auto simp add: at_end_def)

text \<open>A block that goes on has written nothing to the console; one that fails has.\<close>

lemma get_id_console:
  "get_id s = Inr r \<Longrightarrow> console (snd r) = console s"
  "get_id s = Inl e \<Longrightarrow> console e \<noteq> []"
  by (auto simp add: get_id_def Let_def split_beta console_syntaxError_ne split: if_splits)

lemma classes_loop_console:
  "(\<forall>r. classes_loop s cls = Inr r \<longrightarrow> console (snd r) = console s) \<and>
   (\<forall>e. classes_loop s cls = Inl e \<longrightarrow> console e \<noteq> [])"
proof (induction s cls rule: classes_loop.induct)
  case (1 s cls)
  let ?r = "getAttr (snd (mp_next s))"
  show ?case
  proof (cases "mp_c s = Some CHR ''.''")
    case False
    then show ?thesis by (simp add: classes_loop.simps [of s cls])
  next
    case True
    show ?thesis
    proof (cases "fst ?r")
      case None
      then show ?thesis using True
        by (simp add: classes_loop.simps [of s cls] split_beta console_syntaxError_ne)
    next
      case (Some cl)
      then show ?thesis using True 1 [OF True refl prod.collapse Some]
        by (simp add: classes_loop.simps [of s cls] split_beta)
    qed
  qed
qed

lemma attrs_loop_console:
  "(\<forall>r. attrs_loop s ats = Inr r \<longrightarrow> console (snd r) = console s) \<and>
   (\<forall>e. attrs_loop s ats = Inl e \<longrightarrow> console e \<noteq> [])"
proof (induction s ats rule: attrs_loop.induct)
  case (1 s ats)
  let ?g = "getAttr s"
  show ?case
  proof (cases "fst ?g")
    case None
    then show ?thesis by (simp add: attrs_loop_unfold [of s ats] console_syntaxError_ne)
  next
    case (Some a)
    let ?r = "attr_value (eatblanks (snd ?g))"
    show ?thesis
    proof (cases "mp_c (snd ?r) = Some CHR '',''")
      case False
      then show ?thesis using Some attr_value_console [of "eatblanks (snd ?g)" "CHR '')''"]
        by (simp add: attrs_loop_unfold [of s ats] Let_def console_syntaxError_ne)
    next
      case True
      have "console (snd ?r) = console s"
        using attr_value_console [OF True] by simp
      then show ?thesis
        using 1 [OF refl prod.collapse Some refl refl prod.collapse refl] True Some
        by (simp add: attrs_loop_unfold [of s ats] Let_def attr_value_def)
    qed
  qed
qed

lemma get_attrs_console:
  "get_attrs s = Inr r \<Longrightarrow> console (snd r) = console s"
  "get_attrs s = Inl e \<Longrightarrow> console e \<noteq> []"
proof -
  let ?r = "attrs_loop (snd (mp_next s)) []"
  have a: "(\<forall>r. ?r = Inr r \<longrightarrow> console (snd r) = console s) \<and>
      (\<forall>e. ?r = Inl e \<longrightarrow> console e \<noteq> [])"
    using attrs_loop_console [of "snd (mp_next s)" "[]"] by simp
  have "(get_attrs s = Inr r \<longrightarrow> console (snd r) = console s) \<and>
      (get_attrs s = Inl e \<longrightarrow> console e \<noteq> [])"
  proof (cases "mp_c s = Some CHR ''(''")
    case False
    then show ?thesis by (auto simp add: get_attrs_def)
  next
    case True
    show ?thesis
    proof (cases ?r)
      case (Inl e')
      then show ?thesis using True a by (auto simp add: get_attrs_def)
    next
      case (Inr p)
      obtain ats s1 where p: "p = (ats, s1)" by (cases p)
      have "console s1 = console s" using a Inr p by simp
      then show ?thesis using True Inr p
        by (auto simp add: get_attrs_def console_syntaxError_ne)
    qed
  qed
  then show "get_attrs s = Inr r \<Longrightarrow> console (snd r) = console s"
    and "get_attrs s = Inl e \<Longrightarrow> console e \<noteq> []" by simp_all
qed

lemma segment_console:
  "(\<forall>r. segment s = Inr r \<longrightarrow> console (snd r) = console s) \<and>
   (\<forall>e. segment s = Inl e \<longrightarrow> console e \<noteq> [])"
proof -
  let ?g = "getAttr (snd (mp_next s))"
  have g: "console (snd ?g) = console s" by simp
  show ?thesis
  proof (cases "get_id (snd ?g)")
    case (Inl e)
    then show ?thesis using get_id_console(2) [OF Inl]
      by (simp add: segment_def Let_def split_beta)
  next
    case i: (Inr p)
    obtain i s2 where p: "p = (i, s2)" by (cases p)
    have s2: "console s2 = console s" using get_id_console(1) [OF i] p g by simp
    show ?thesis
    proof (cases "classes_loop s2 []")
      case (Inl e)
      then show ?thesis using i p classes_loop_console [of s2 "[]"]
        by (simp add: segment_def Let_def split_beta)
    next
      case c: (Inr q)
      obtain cls s3 where q: "q = (cls, s3)" by (cases q)
      have s3: "console s3 = console s" using classes_loop_console [of s2 "[]"] c q s2 by simp
      show ?thesis
      proof (cases "get_attrs s3")
        case (Inl e)
        then show ?thesis using i p c q get_attrs_console(2) [OF Inl]
          by (simp add: segment_def Let_def split_beta)
      next
        case a: (Inr r)
        obtain ats s4 where r: "r = (ats, s4)" by (cases r)
        have "console s4 = console s" using get_attrs_console(1) [OF a] r s3 by simp
        then show ?thesis using i p c q a r
          by (simp add: segment_def Let_def split_beta)
      qed
    qed
  qed
qed

lemma parse_loop_console:
  "(fst (parse_loop s rs) \<noteq> None \<longrightarrow> console (snd (parse_loop s rs)) = console s) \<and>
   (fst (parse_loop s rs) = None \<longrightarrow> console (snd (parse_loop s rs)) \<noteq> [])"
proof (induction s rs rule: parse_loop.induct)
  case (1 s rs)
  show ?case
  proof (cases "segment s")
    case (Inl e)
    then show ?thesis using segment_console [of s] by (simp add: parse_loop.simps [of s rs])
  next
    case (Inr r)
    obtain d s1 where r: "r = (d, s1)" by (cases r)
    have c: "console s1 = console s" using segment_console [of s] Inr r by simp
    show ?thesis
    proof (cases "mp_c s1 = Some CHR ''>''")
      case True
      then show ?thesis using 1 [OF Inr r [symmetric] refl] Inr r c
        by (simp add: parse_loop.simps [of s rs])
    next
      case False
      then show ?thesis using Inr r c
        by (simp add: parse_loop.simps [of s rs] console_syntaxError_ne Let_def)
    qed
  qed
qed

lemma parse_loop_nonempty: "fst (parse_loop s rs) \<noteq> Some []"
proof (induction s rs rule: parse_loop.induct)
  case (1 s rs)
  show ?case
  proof (cases "segment s")
    case (Inl e)
    then show ?thesis by (simp add: parse_loop.simps [of s rs])
  next
    case (Inr r)
    obtain d s1 where r: "r = (d, s1)" by (cases r)
    show ?thesis
    proof (cases "mp_c s1 = Some CHR ''>''")
      case True
      then show ?thesis using 1 [OF Inr r [symmetric] refl] Inr r
        by (simp add: parse_loop.simps [of s rs])
    next
      case False
      then show ?thesis using Inr r
        by (simp add: parse_loop.simps [of s rs] Let_def)
    qed
  qed
qed

lemma scans_parse_loop: "scans s (snd (parse_loop s rs))"
proof (induction s rs rule: parse_loop.induct)
  case (1 s rs)
  have a: "scans s (state_of (segment s))"
    by (rule scans_trans [OF scans_next1 scans_segment])
  show ?case
  proof (cases "segment s")
    case (Inl e)
    then show ?thesis using a by (simp add: parse_loop.simps [of s rs])
  next
    case (Inr r)
    obtain d s1 where r: "r = (d, s1)" by (cases r)
    have s1: "scans s s1" using a Inr r by simp
    show ?thesis
    proof (cases "mp_c s1 = Some CHR ''>''")
      case True
      have "scans s1 (snd (parse_loop s1 (rs @ [d])))"
        using 1 [OF Inr r [symmetric] refl] True by simp
      then show ?thesis using scans_trans [OF s1] True Inr r
        by (simp add: parse_loop.simps [of s rs])
    next
      case False
      then show ?thesis using Inr r s1 scans_error [OF s1]
        by (simp add: parse_loop.simps [of s rs] Let_def)
    qed
  qed
qed

lemma string_loop_last:
  "str = [] \<or> Some (last str) = mp_c s \<Longrightarrow> mp_c (snd (string_loop s dchar str)) \<noteq> None \<Longrightarrow>
   fst (string_loop s dchar str) = [] \<or> last (fst (string_loop s dchar str)) \<noteq> BACKSLASH"
proof (induction s dchar str rule: string_loop.induct)
  case (1 s dchar str)
  obtain ok s' where n: "mp_next s = (ok, s')" by (cases "mp_next s")
  show ?case
  proof (cases ok)
    case False
    then have "mp_c s' = None" using n by (auto simp add: mp_next_def split: if_splits)
    then show ?thesis using 1(3) n False by (simp add: string_loop.simps [of s dchar str])
  next
    case True
    then obtain x where c: "mp_c s' = Some x" and p: "mp_p s' = mp_c s"
      using n by (auto simp add: mp_next_def split: if_splits)
    show ?thesis
    proof (cases "mp_c s' = dchar \<and> mp_p s' \<noteq> Some BACKSLASH")
      case b: True
      then have "string_loop s dchar str = (str, s')"
        using n True by (simp add: string_loop.simps [of s dchar str])
      then show ?thesis using 1(2) b p by auto
    next
      case b: False
      have eq: "string_loop s dchar str = string_loop s' dchar (str @ js_char (mp_c s'))"
        using n True b by (auto simp add: string_loop.simps [of s dchar str])
      have "str @ js_char (mp_c s') = [] \<or> Some (last (str @ js_char (mp_c s'))) = mp_c s'"
        using c by simp
      then show ?thesis using 1(1) [OF n [symmetric] _ _ ] True b 1(3) eq by auto
    qed
  qed
qed

lemma getString_fst: "fst (getString s) = fst (string_loop s (mp_c s) [])"
  by (simp add: getString_def Let_def split_beta)

lemma eatblanks_None: "mp_c s = None \<Longrightarrow> eatblanks s = s"
  by (simp add: eatblanks.simps [of s] blanks_def)

lemma next_at_end: "at_end s \<Longrightarrow> mp_next s = (False, s)"
  by (cases s) (simp add: at_end_def mp_next_def)

lemma attr_loop_at_end: "at_end s \<Longrightarrow> attr_loop s a = (a, s)"
  by (simp add: attr_loop.simps [of s a] next_at_end)

lemma getAttr_at_end: "at_end s \<Longrightarrow> getAttr s = (None, s)"
  by (simp add: getAttr_def eatblanks_None attr_loop_at_end at_end_def)

lemma segment_at_end:
  assumes "length (mp_txt s) \<le> mp_pos s"
  shows "segment s = Inr (default_div, s\<lparr>mp_c := None\<rparr>)"
proof -
  let ?e = "s\<lparr>mp_c := None\<rparr>"
  have n: "mp_next s = (False, ?e)" using assms by (simp add: mp_next_def)
  have e: "at_end ?e" using assms by (simp add: at_end_def)
  have c: "mp_c ?e = None" by simp
  have "get_id ?e = Inr (None, ?e)" by (simp add: get_id_def)
  moreover have "classes_loop ?e [] = Inr ([], ?e)" by (simp add: classes_loop.simps [of ?e])
  moreover have "get_attrs ?e = Inr ([], ?e)" by (simp add: get_attrs_def)
  moreover have "eatblanks ?e = ?e" using c by (rule eatblanks_None)
  ultimately show ?thesis using n getAttr_at_end [OF e]
    by (simp add: segment_def default_div_def)
qed

section \<open>Facts about the engine\<close>


























lemma getAttribute_childNodes [simp]:
  "getAttribute (el\<lparr>childNodes := c\<rparr>) k = getAttribute el k"
  by (simp add: getAttribute_def)


















lemma find_first_x: "find_first (''${'' @ n @ ''}'') ''x'' = None"
  by simp





lemma convert_rules_parse_failure:
  "fst (parse conversion) = None \<Longrightarrow>
   convert_rules api ((sel, conversion) # rest) doc log =
     (Some TypeError, doc, log @ snd (parse conversion))"
  by (simp add: split_beta)















lemma eatblanks_noblank: "mp_c s \<notin> set blanks \<Longrightarrow> eatblanks s = s"
  by (simp add: eatblanks.simps [of s])

text \<open>The loop of \<open>_getAttr\<close> reads the characters of an identifier up to the next other character.\<close>

lemma attr_loop_word:
  assumes "mp_txt s = pre @ w @ ch # post" and "mp_pos s = length pre"
    and "\<forall>x \<in> set w. charsEx_test (Some x)" and "\<not> charsEx_test (Some ch)"
  shows "attr_loop s (Some acc) =
    (Some (acc @ w),
     s\<lparr>mp_p := (if w = [] then mp_c s else Some (last w)), mp_c := Some ch,
       mp_pos := length pre + length w + 1\<rparr>)"
  using assms
proof (induction w arbitrary: s pre acc)
  case Nil
  then have "mp_next s = (True, s\<lparr>mp_p := mp_c s, mp_c := Some ch, mp_pos := length pre + 1\<rparr>)"
    by (simp add: mp_next_def)
  then show ?case using Nil(4) by (simp add: attr_loop.simps [of s])
next
  case (Cons x w)
  let ?s1 = "s\<lparr>mp_p := mp_c s, mp_c := Some x, mp_pos := length pre + 1\<rparr>"
  have n: "mp_next s = (True, ?s1)" using Cons(2,3) by (simp add: mp_next_def nth_append)
  have "attr_loop ?s1 (Some (acc @ [x])) =
    (Some ((acc @ [x]) @ w),
     ?s1\<lparr>mp_p := (if w = [] then mp_c ?s1 else Some (last w)), mp_c := Some ch,
       mp_pos := length (pre @ [x]) + length w + 1\<rparr>)"
    using Cons(2,3,4,5) by (intro Cons(1)) simp_all
  then show ?case using n Cons(4) by (simp add: attr_loop.simps [of s])
qed



text \<open>Without a closing quote ahead, the loop of \<open>_getString\<close> runs to the end of the text.\<close>

lemma string_loop_eof:
  assumes "\<forall>i. mp_pos s \<le> i \<and> i < length (mp_txt s) \<longrightarrow> Some (mp_txt s ! i) \<noteq> dchar"
  shows "mp_c (snd (string_loop s dchar str)) = None \<and>
         mp_pos (snd (string_loop s dchar str)) = max (mp_pos s) (length (mp_txt s)) \<and>
         mp_txt (snd (string_loop s dchar str)) = mp_txt s"
  using assms
proof (induction s dchar str rule: string_loop.induct)
  case (1 s dchar str)
  show ?case
  proof (cases "mp_pos s < length (mp_txt s)")
    case False
    then have "mp_next s = (False, s\<lparr>mp_c := None\<rparr>)" by (simp add: mp_next_def)
    then show ?thesis using False by (simp add: string_loop.simps [of s])
  next
    case True
    let ?s1 = "s\<lparr>mp_p := mp_c s, mp_c := Some (mp_txt s ! mp_pos s), mp_pos := mp_pos s + 1\<rparr>"
    have n: "mp_next s = (True, ?s1)" using True by (simp add: mp_next_def)
    have c: "mp_c ?s1 \<noteq> dchar" using 1(2) True by simp
    have "\<forall>i. mp_pos ?s1 \<le> i \<and> i < length (mp_txt ?s1) \<longrightarrow> Some (mp_txt ?s1 ! i) \<noteq> dchar"
      using 1(2) by simp
    then have "mp_c (snd (string_loop ?s1 dchar (str @ js_char (mp_c ?s1)))) = None \<and>
         mp_pos (snd (string_loop ?s1 dchar (str @ js_char (mp_c ?s1)))) =
           max (mp_pos ?s1) (length (mp_txt ?s1)) \<and>
         mp_txt (snd (string_loop ?s1 dchar (str @ js_char (mp_c ?s1)))) = mp_txt ?s1"
      using c by (intro 1(1) [OF n [symmetric]]) simp_all
    moreover have "string_loop s dchar str = string_loop ?s1 dchar (str @ js_char (mp_c ?s1))"
      using n c by (simp add: string_loop.simps [of s])
    ultimately show ?thesis using True by (simp add: max_def)
  qed
qed

lemma parse_unclosed_quote:
  assumes "q = DQUOTE \<or> q = SQUOTE" and "q \<notin> set body"
  shows "parse (''a(x='' @ q # body) =
    (None, [(length body + 5, None, ''unclosed quote''),
            (length body + 5, None, ''unexpected character'')])"
proof -
  define t where "t = ''a(x='' @ q # body"
  define k where "k = length body + 5"
  let ?s1 = "\<lparr>mp_txt = t, mp_pos = Suc 0, mp_c = Some CHR ''a'', mp_p = None, console = []\<rparr>"
  let ?s2 = "\<lparr>mp_txt = t, mp_pos = 2, mp_c = Some CHR ''('', mp_p = Some CHR ''a'', console = []\<rparr>"
  let ?s3 = "\<lparr>mp_txt = t, mp_pos = 3, mp_c = Some CHR ''x'', mp_p = Some CHR ''('', console = []\<rparr>"
  let ?s4 = "\<lparr>mp_txt = t, mp_pos = 4, mp_c = Some CHR ''='', mp_p = Some CHR ''x'', console = []\<rparr>"
  let ?s5 = "\<lparr>mp_txt = t, mp_pos = 5, mp_c = Some q, mp_p = Some CHR ''='', console = []\<rparr>"
  have len: "length t = k" by (simp add: t_def k_def)
  have qb: "Some q \<notin> set blanks" using assms(1) by (auto simp add: blanks_def)
  have n0: "mp_next (start t) = (True, ?s1)" by (simp add: mp_next_def start_def t_def)
  have b1: "eatblanks ?s1 = ?s1" by (rule eatblanks_noblank) (simp add: blanks_def)
  have b2: "eatblanks ?s2 = ?s2" by (rule eatblanks_noblank) (simp add: blanks_def)
  have b3: "eatblanks ?s3 = ?s3" by (rule eatblanks_noblank) (simp add: blanks_def)
  have b4: "eatblanks ?s4 = ?s4" by (rule eatblanks_noblank) (simp add: blanks_def)
  have b5: "eatblanks ?s5 = ?s5" by (rule eatblanks_noblank) (simp add: qb)
  have "attr_loop ?s1 (Some ''a'') = (Some (''a'' @ []),
     ?s1\<lparr>mp_p := (if ([] :: string) = [] then mp_c ?s1 else Some (last [])), mp_c := Some CHR ''('',
       mp_pos := length ''a'' + length ([] :: string) + 1\<rparr>)"
    by (rule attr_loop_word [where post = "''x='' @ q # body"])
      (simp_all add: t_def is_letter_def is_digit_def)
  then have a1: "attr_loop ?s1 (Some ''a'') = (Some ''a'', ?s2)" by simp
  have g1: "getAttr ?s1 = (Some ''a'', ?s2)"
    by (simp add: getAttr_def b1 a1 b2 is_letter_def)
  have i2: "get_id ?s2 = Inr (None, ?s2)" by (simp add: get_id_def)
  have c2: "classes_loop ?s2 [] = Inr ([], ?s2)" by (simp add: classes_loop.simps [of ?s2])
  have n2: "mp_next ?s2 = (True, ?s3)" by (simp add: mp_next_def t_def)
  have "attr_loop ?s3 (Some ''x'') = (Some (''x'' @ []),
     ?s3\<lparr>mp_p := (if ([] :: string) = [] then mp_c ?s3 else Some (last [])), mp_c := Some CHR ''='',
       mp_pos := length ''a(x'' + length ([] :: string) + 1\<rparr>)"
    by (rule attr_loop_word [where post = "q # body"])
      (simp_all add: t_def is_letter_def is_digit_def)
  then have a3: "attr_loop ?s3 (Some ''x'') = (Some ''x'', ?s4)" by simp
  have g3: "getAttr ?s3 = (Some ''x'', ?s4)"
    by (simp add: getAttr_def b3 a3 b4 is_letter_def)
  have n4: "mp_next ?s4 = (True, ?s5)" by (simp add: mp_next_def t_def)
  define e where "e = snd (string_loop ?s5 (Some q) [])"
  have "\<forall>i. mp_pos ?s5 \<le> i \<and> i < length (mp_txt ?s5) \<longrightarrow> Some (mp_txt ?s5 ! i) \<noteq> Some q"
  proof (intro allI impI)
    fix i assume "mp_pos ?s5 \<le> i \<and> i < length (mp_txt ?s5)"
    then have i: "5 \<le> i" "i - 5 < length body" by (auto simp add: t_def)
    have "t ! i = ((''a(x='' @ [q]) @ body) ! i" by (simp add: t_def)
    also have "\<dots> = body ! (i - length (''a(x='' @ [q]))"
      using i by (subst nth_append) simp
    finally have "t ! i = body ! (i - 5)" by (simp add: eval_nat_numeral)
    then show "Some (mp_txt ?s5 ! i) \<noteq> Some q" using assms(2) i nth_mem [of "i - 5" body] by auto
  qed
  then have "mp_c e = None \<and> mp_pos e = max (mp_pos ?s5) (length (mp_txt ?s5)) \<and> mp_txt e = mp_txt ?s5"
    unfolding e_def by (rule string_loop_eof)
  then have e: "mp_c e = None" "mp_pos e = k" "mp_txt e = t" by (simp_all add: len k_def)
  have ce: "console e = []" by (simp add: e_def)
  define e1 where "e1 = snd (mp_next (syntaxError ''unclosed quote'' e))"
  have e1: "mp_c e1 = None" "mp_pos e1 = k" "console e1 = [(k, None, ''unclosed quote'')]"
    using e ce len by (simp_all add: e1_def mp_next_def syntaxError_def)
  have gs: "snd (getString ?s5) = e1"
    using e(1) by (simp add: getString_def Let_def split_beta e_def [symmetric] e1_def)
  have gv: "snd (getValue ?s5) = e1"
    using assms(1) gs e1(1) by (auto simp add: getValue_def b5 split_beta eatblanks_None)
  have av: "snd (attr_value ?s4) = e1" by (simp add: attr_value_def n4 b5 gv)
  have l3: "attrs_loop ?s3 [] = Inl (syntaxError ''unexpected character'' e1)"
    by (simp add: attrs_loop_unfold [of ?s3] g3 b4 av e1(1) Let_def)
  have t2: "get_attrs ?s2 = Inl (syntaxError ''unexpected character'' e1)"
    by (simp add: get_attrs_def n2 l3)
  have "segment (start t) = Inl (syntaxError ''unexpected character'' e1)"
    by (simp add: segment_def n0 g1 i2 c2 t2)
  then have "parse_loop (start t) [] = (None, syntaxError ''unexpected character'' e1)"
    by (simp add: parse_loop.simps [of "start t"])
  then show ?thesis using e1 by (simp add: parse_def parse_run_def t_def k_def syntaxError_def)
qed


subsection \<open>Appending a closing angle to a text\<close>

lemma lockstep_lockstep0: "lockstep s s' \<Longrightarrow> lockstep0 s s'"
  by (simp add: lockstep_def)

lemma lockstep_c: "lockstep s s' \<Longrightarrow> mp_c s' = mp_c s \<and> mp_p s' = mp_p s \<and> mp_c s \<noteq> None"
  by (simp add: lockstep_def lockstep0_def)

lemma next_lockstep0:
  assumes "lockstep0 s s'"
  shows "(fst (mp_next s) \<and> fst (mp_next s') \<and> lockstep (snd (mp_next s)) (snd (mp_next s'))) \<or>
         (\<not> fst (mp_next s) \<and> fst (mp_next s') \<and> ahead (snd (mp_next s)) (snd (mp_next s')))"
  using assms
  by (auto simp add: mp_next_def lockstep0_def lockstep_def ahead_def at_end_def nth_append)

lemma next_follows: "lockstep0 s s' \<Longrightarrow> follows (snd (mp_next s)) (snd (mp_next s'))"
  using next_lockstep0 [of s s'] by (auto simp add: follows_def)

lemma ahead_c: "ahead s s' \<Longrightarrow> mp_c s = None \<and> mp_c s' = Some CHR ''>'' \<and> at_end s"
  by (simp add: ahead_def at_end_def)

lemma ahead_eatblanks: "ahead s s' \<Longrightarrow> eatblanks s = s \<and> eatblanks s' = s'"
  by (simp add: ahead_c eatblanks_None eatblanks_noblank blanks_def)

lemma follows_eatblanks: "follows s s' \<Longrightarrow> follows (eatblanks s) (eatblanks s')"
proof (induction s arbitrary: s' rule: eatblanks.induct)
  case (1 s)
  show ?case
  proof (cases "ahead s s'")
    case True
    then show ?thesis using 1(2) by (simp add: ahead_eatblanks)
  next
    case False
    then have l: "lockstep s s'" using 1(2) by (simp add: follows_def)
    then have c: "mp_c s' = mp_c s" by (simp add: lockstep_c)
    show ?thesis
    proof (cases "0 \<le> indexOf blanks (mp_c s)")
      case b: True
      have "follows (snd (mp_next s)) (snd (mp_next s'))"
        using l by (intro next_follows lockstep_lockstep0)
      then have "follows (eatblanks (snd (mp_next s))) (eatblanks (snd (mp_next s')))"
        using 1(1) [OF b] by simp
      then show ?thesis using b c by (simp add: eatblanks.simps [of s] eatblanks.simps [of s'])
    next
      case b: False
      then show ?thesis using c 1(2) by (simp add: eatblanks.simps [of s] eatblanks.simps [of s'])
    qed
  qed
qed

lemma attr_loop_follows:
  "lockstep0 s s' \<Longrightarrow>
   fst (attr_loop s a) = fst (attr_loop s' a) \<and> follows (snd (attr_loop s a)) (snd (attr_loop s' a))"
proof (induction s a arbitrary: s' rule: attr_loop.induct)
  case (1 s attr)
  obtain ok s1 where n: "mp_next s = (ok, s1)" by (cases "mp_next s")
  obtain ok' s1' where n': "mp_next s' = (ok', s1')" by (cases "mp_next s'")
  from next_lockstep0 [OF 1(2)]
  show ?case
  proof
    assume "fst (mp_next s) \<and> fst (mp_next s') \<and> lockstep (snd (mp_next s)) (snd (mp_next s'))"
    then have ok: "ok" "ok'" and l: "lockstep s1 s1'" using n n' by simp_all
    then have c: "mp_c s1' = mp_c s1" by (simp add: lockstep_c)
    show ?thesis
    proof (cases "charsEx_test (mp_c s1)")
      case True
      then show ?thesis
        using 1(1) [OF n [symmetric] refl _ lockstep_lockstep0 [OF l]] ok c n n'
        by (simp add: attr_loop.simps [of s] attr_loop.simps [of s'])
    next
      case False
      then show ?thesis using ok c n n' l
        by (simp add: attr_loop.simps [of s] attr_loop.simps [of s'] follows_def)
    qed
  next
    assume "\<not> fst (mp_next s) \<and> fst (mp_next s') \<and> ahead (snd (mp_next s)) (snd (mp_next s'))"
    then have ok: "\<not> ok" "ok'" and a: "ahead s1 s1'" using n n' by simp_all
    then have "\<not> charsEx_test (mp_c s1')" by (simp add: ahead_c is_letter_def is_digit_def)
    then show ?thesis using ok n n' a
      by (simp add: attr_loop.simps [of s] attr_loop.simps [of s'] follows_def)
  qed
qed

lemma getAttr_follows:
  assumes "follows s s'"
  shows "fst (getAttr s) = fst (getAttr s') \<and> follows (snd (getAttr s)) (snd (getAttr s'))"
proof -
  have f: "follows (eatblanks s) (eatblanks s')" using assms by (rule follows_eatblanks)
  show ?thesis
  proof (cases "ahead (eatblanks s) (eatblanks s')")
    case True
    then have "getAttr s = (None, eatblanks s)"
      by (simp add: getAttr_def Let_def ahead_c attr_loop_at_end eatblanks_None)
    moreover have "getAttr s' = (None, eatblanks s')"
      using True by (simp add: getAttr_def Let_def ahead_c is_letter_def)
    ultimately show ?thesis using f by simp
  next
    case False
    then have l: "lockstep (eatblanks s) (eatblanks s')" using f by (simp add: follows_def)
    then have c: "mp_c (eatblanks s') = mp_c (eatblanks s)" by (simp add: lockstep_c)
    show ?thesis
    proof (cases "chars_test (mp_c (eatblanks s))")
      case t: False
      then show ?thesis using c f by (simp add: getAttr_def Let_def)
    next
      case t: True
      let ?a = "map_option (\<lambda>ch. [ch]) (mp_c (eatblanks s))"
      have "fst (attr_loop (eatblanks s) ?a) = fst (attr_loop (eatblanks s') ?a) \<and>
        follows (snd (attr_loop (eatblanks s) ?a)) (snd (attr_loop (eatblanks s') ?a))"
        using l by (intro attr_loop_follows lockstep_lockstep0)
      then show ?thesis using t c
        by (simp add: getAttr_def Let_def split_beta follows_eatblanks)
    qed
  qed
qed

lemma ahead_at_end: "ahead s s' \<Longrightarrow> at_end s"
  by (simp add: ahead_def)

lemma ahead_next:
  "ahead s s' \<Longrightarrow> mp_next s' = (False, s'\<lparr>mp_c := None\<rparr>) \<and> at_end (s'\<lparr>mp_c := None\<rparr>)"
  by (simp add: ahead_def mp_next_def at_end_def)

lemma string_loop_follows:
  "lockstep0 s s' \<Longrightarrow> d \<noteq> Some CHR ''>'' \<Longrightarrow>
   (fst (string_loop s d str) = fst (string_loop s' d str) \<and>
    lockstep (snd (string_loop s d str)) (snd (string_loop s' d str))) \<or>
   (at_end (snd (string_loop s d str)) \<and> at_end (snd (string_loop s' d str)))"
proof (induction s d str arbitrary: s' rule: string_loop.induct)
  case (1 s dchar str)
  obtain ok s1 where n: "mp_next s = (ok, s1)" by (cases "mp_next s")
  obtain ok' s1' where n': "mp_next s' = (ok', s1')" by (cases "mp_next s'")
  from next_lockstep0 [OF 1(2)]
  show ?case
  proof
    assume "fst (mp_next s) \<and> fst (mp_next s') \<and> lockstep (snd (mp_next s)) (snd (mp_next s'))"
    then have ok: "ok" "ok'" and l: "lockstep s1 s1'" using n n' by simp_all
    then have c: "mp_c s1' = mp_c s1" "mp_p s1' = mp_p s1" by (simp_all add: lockstep_c)
    show ?thesis
    proof (cases "mp_c s1 = dchar \<and> mp_p s1 \<noteq> Some BACKSLASH")
      case True
      then show ?thesis using ok c n n' l
        by (simp add: string_loop.simps [of s] string_loop.simps [of s'])
    next
      case False
      have "(fst (string_loop s1 dchar (str @ js_char (mp_c s1))) =
             fst (string_loop s1' dchar (str @ js_char (mp_c s1))) \<and>
           lockstep (snd (string_loop s1 dchar (str @ js_char (mp_c s1))))
             (snd (string_loop s1' dchar (str @ js_char (mp_c s1))))) \<or>
          (at_end (snd (string_loop s1 dchar (str @ js_char (mp_c s1)))) \<and>
           at_end (snd (string_loop s1' dchar (str @ js_char (mp_c s1)))))"
        using 1(1) [OF n [symmetric] refl _ _ lockstep_lockstep0 [OF l] 1(3)] ok False by simp
      moreover have "string_loop s dchar str = string_loop s1 dchar (str @ js_char (mp_c s1))"
        using ok False n by (auto simp add: string_loop.simps [of s])
      moreover have "string_loop s' dchar str = string_loop s1' dchar (str @ js_char (mp_c s1))"
        using ok False n' c by (auto simp add: string_loop.simps [of s'])
      ultimately show ?thesis by simp
    qed
  next
    assume "\<not> fst (mp_next s) \<and> fst (mp_next s') \<and> ahead (snd (mp_next s)) (snd (mp_next s'))"
    then have ok: "\<not> ok" "ok'" and a: "ahead s1 s1'" using n n' by simp_all
    have "string_loop s1' dchar (str @ js_char (mp_c s1')) =
        (str @ js_char (mp_c s1'), s1'\<lparr>mp_c := None\<rparr>)"
      using ahead_next [OF a] by (simp add: string_loop.simps [of s1'])
    moreover have "mp_c s1' \<noteq> dchar" using a 1(3) by (auto simp add: ahead_c)
    ultimately have "snd (string_loop s' dchar str) = s1'\<lparr>mp_c := None\<rparr>"
      using n' ok by (simp add: string_loop.simps [of s'])
    then show ?thesis using n ok a ahead_next [OF a]
      by (simp add: string_loop.simps [of s] ahead_at_end)
  qed
qed

lemma at_end_getString:
  assumes "at_end (snd (string_loop s (mp_c s) []))"
  shows "at_end (snd (getString s))"
proof -
  let ?r = "string_loop s (mp_c s) []"
  have "at_end (snd (mp_next (syntaxError ''unclosed quote'' (snd ?r))))"
    using assms by (intro scans_at_end [OF scans_next1]) (simp add: at_end_iff)
  moreover have "mp_c (snd ?r) = None" using assms by (simp add: at_end_def)
  ultimately show ?thesis by (simp add: getString_def Let_def split_beta)
qed

lemma getString_follows:
  assumes "lockstep s s'" and "mp_c s \<noteq> Some CHR ''>''"
  shows "(fst (getString s) = fst (getString s') \<and> follows (snd (getString s)) (snd (getString s'))) \<or>
         (at_end (snd (getString s)) \<and> at_end (snd (getString s')))"
proof -
  let ?r = "string_loop s (mp_c s) []"
  let ?r' = "string_loop s' (mp_c s) []"
  have c: "mp_c s' = mp_c s" using assms(1) by (simp add: lockstep_c)
  from string_loop_follows [OF lockstep_lockstep0 [OF assms(1)] assms(2), of "[]"]
  show ?thesis
  proof
    assume a: "fst ?r = fst ?r' \<and> lockstep (snd ?r) (snd ?r')"
    then have "lockstep (snd ?r) (snd ?r')" by simp
    then obtain y y' where n: "mp_c (snd ?r) = Some y" "mp_c (snd ?r') = Some y'"
      using lockstep_c [of "snd ?r" "snd ?r'"] by auto
    have "follows (snd (mp_next (snd ?r))) (snd (mp_next (snd ?r')))"
      using a by (intro next_follows lockstep_lockstep0) simp
    then show ?thesis using a n c by (simp add: getString_def Let_def split_beta)
  next
    assume "at_end (snd ?r) \<and> at_end (snd ?r')"
    then show ?thesis using at_end_getString [of s] at_end_getString [of s'] c by simp
  qed
qed

lemma value_loop_follows:
  "lockstep s s' \<Longrightarrow>
   (\<exists>v s1 s1'. value_loop s val = Inr (v, s1) \<and> value_loop s' val = Inr (v, s1') \<and> lockstep s1 s1') \<or>
   (\<exists>v v' s1 s1'. value_loop s val = Inl (v, s1) \<and> value_loop s' val = Inl (v', s1') \<and>
      at_end s1 \<and> at_end s1')"
proof (induction s val arbitrary: s' rule: value_loop.induct)
  case (1 s val)
  have c: "mp_c s' = mp_c s" using 1(2) by (simp add: lockstep_c)
  show ?case
  proof (cases "indexOf stops (mp_c s) < 0")
    case False
    then show ?thesis using c 1(2)
      by (simp add: value_loop.simps [of s] value_loop.simps [of s'])
  next
    case True
    obtain ok s1 where n: "mp_next s = (ok, s1)" by (cases "mp_next s")
    obtain ok' s1' where n': "mp_next s' = (ok', s1')" by (cases "mp_next s'")
    from next_lockstep0 [OF lockstep_lockstep0 [OF 1(2)]]
    show ?thesis
    proof
      assume "fst (mp_next s) \<and> fst (mp_next s') \<and> lockstep (snd (mp_next s)) (snd (mp_next s'))"
      then have ok: "ok" "ok'" and l: "lockstep s1 s1'" using n n' by simp_all
      have "(\<exists>v t1 t1'. value_loop s1 (val @ js_char (mp_c s)) = Inr (v, t1) \<and>
              value_loop s1' (val @ js_char (mp_c s)) = Inr (v, t1') \<and> lockstep t1 t1') \<or>
            (\<exists>v v' t1 t1'. value_loop s1 (val @ js_char (mp_c s)) = Inl (v, t1) \<and>
              value_loop s1' (val @ js_char (mp_c s)) = Inl (v', t1') \<and> at_end t1 \<and> at_end t1')"
        using 1(1) [OF True refl refl n [symmetric] _ l] ok by simp
      moreover have "value_loop s val = value_loop s1 (val @ js_char (mp_c s))"
        using True ok n by (simp add: value_loop.simps [of s])
      moreover have "value_loop s' val = value_loop s1' (val @ js_char (mp_c s))"
        using True ok n' c by (simp add: value_loop.simps [of s'])
      ultimately show ?thesis by simp
    next
      assume "\<not> fst (mp_next s) \<and> fst (mp_next s') \<and> ahead (snd (mp_next s)) (snd (mp_next s'))"
      then have ok: "\<not> ok" "ok'" and a: "ahead s1 s1'" using n n' by simp_all
      have "mp_c s1' = Some CHR ''>''" using a by (simp add: ahead_c)
      then have "value_loop s1' (val @ js_char (mp_c s)) =
          Inl (val @ js_char (mp_c s) @ ''>'', s1'\<lparr>mp_c := None\<rparr>)"
        using ahead_next [OF a] by (simp add: value_loop.simps [of s1'] stops_def)
      then have "value_loop s' val = Inl (val @ js_char (mp_c s) @ ''>'', s1'\<lparr>mp_c := None\<rparr>)"
        using True c n' ok by (simp add: value_loop.simps [of s'])
      moreover have "value_loop s val = Inl (val @ js_char (mp_c s), s1)"
        using True n ok by (simp add: value_loop.simps [of s])
      ultimately show ?thesis using a ahead_next [OF a] by (simp add: ahead_at_end)
    qed
  qed
qed

lemma getValue_at_end_in: "at_end (eatblanks s) \<Longrightarrow> at_end (snd (getValue s))"
proof -
  assume a: "at_end (eatblanks s)"
  let ?s1 = "eatblanks s"
  have c: "mp_c ?s1 = None" using a by (simp add: at_end_def)
  have "value_loop ?s1 [] = Inl (''null'', ?s1)"
    using c by (simp add: value_loop.simps [of ?s1] stops_def next_at_end [OF a])
  then show ?thesis using a c by (simp add: getValue_def Let_def)
qed

lemma getValue_follows:
  assumes "follows s s'"
  shows "(fst (getValue s) = fst (getValue s') \<and> follows (snd (getValue s)) (snd (getValue s'))) \<or>
         (at_end (snd (getValue s)) \<and> at_end (snd (getValue s')))"
proof -
  let ?s1 = "eatblanks s"
  let ?s1' = "eatblanks s'"
  have f: "follows ?s1 ?s1'" using assms by (rule follows_eatblanks)
  show ?thesis
  proof (cases "ahead ?s1 ?s1'")
    case True
    then have "at_end ?s1" by (rule ahead_at_end)
    then have "at_end (snd (getValue s))" by (rule getValue_at_end_in)
    moreover have "mp_c ?s1' = Some CHR ''>''" using True by (simp add: ahead_c)
    then have "getValue s' = (Some ''>'', ?s1'\<lparr>mp_c := None\<rparr>)"
      using ahead_next [OF True]
      by (simp add: getValue_def Let_def value_loop.simps [of ?s1'] stops_def)
    ultimately show ?thesis using ahead_next [OF True] by simp
  next
    case False
    then have l: "lockstep ?s1 ?s1'" using f by (simp add: follows_def)
    then have c: "mp_c ?s1' = mp_c ?s1" by (simp add: lockstep_c)
    show ?thesis
    proof (cases "mp_c ?s1 = Some DQUOTE \<or> mp_c ?s1 = Some SQUOTE")
      case q: True
      have v: "getValue s = (Some (fst (getString ?s1)), eatblanks (snd (getString ?s1)))"
        using q by (auto simp add: getValue_def Let_def split_beta)
      have v': "getValue s' = (Some (fst (getString ?s1')), eatblanks (snd (getString ?s1')))"
        using q c by (auto simp add: getValue_def Let_def split_beta)
      have "mp_c ?s1 \<noteq> Some CHR ''>''" using q by auto
      from getString_follows [OF l this]
      show ?thesis
      proof
        assume "fst (getString ?s1) = fst (getString ?s1') \<and>
          follows (snd (getString ?s1)) (snd (getString ?s1'))"
        then show ?thesis using v v' by (simp add: follows_eatblanks)
      next
        assume "at_end (snd (getString ?s1)) \<and> at_end (snd (getString ?s1'))"
        then have "at_end (eatblanks (snd (getString ?s1)))"
          "at_end (eatblanks (snd (getString ?s1')))"
          by (simp_all add: scans_at_end [OF scans_eatblanks])
        then show ?thesis using v v' by simp
      qed
    next
      case q: False
      from value_loop_follows [OF l, of "[]"]
      show ?thesis
      proof
        assume "\<exists>v s2 s2'. value_loop ?s1 [] = Inr (v, s2) \<and> value_loop ?s1' [] = Inr (v, s2') \<and>
          lockstep s2 s2'"
        then obtain v s2 s2' where v: "value_loop ?s1 [] = Inr (v, s2)"
          "value_loop ?s1' [] = Inr (v, s2')" "lockstep s2 s2'" by blast
        have "follows (eatblanks s2) (eatblanks s2')"
          using v(3) by (intro follows_eatblanks) (simp add: follows_def)
        then show ?thesis using q c v by (simp add: getValue_def Let_def)
      next
        assume "\<exists>v v' s2 s2'. value_loop ?s1 [] = Inl (v, s2) \<and> value_loop ?s1' [] = Inl (v', s2') \<and>
          at_end s2 \<and> at_end s2'"
        then obtain v v' s2 s2' where v: "value_loop ?s1 [] = Inl (v, s2)"
          "value_loop ?s1' [] = Inl (v', s2')" "at_end s2" "at_end s2'" by blast
        then show ?thesis using q c by (simp add: getValue_def Let_def)
      qed
    qed
  qed
qed

lemma attr_value_follows:
  assumes "lockstep s s'"
  shows "(fst (attr_value s) = fst (attr_value s') \<and> follows (snd (attr_value s)) (snd (attr_value s'))) \<or>
         (at_end (snd (attr_value s)) \<and> at_end (snd (attr_value s')))"
proof (cases "mp_c s = Some CHR ''=''")
  case False
  then show ?thesis using assms by (simp add: attr_value_def lockstep_c follows_def)
next
  case True
  have "follows (snd (mp_next s)) (snd (mp_next s'))"
    using assms by (intro next_follows lockstep_lockstep0)
  then have "follows (eatblanks (snd (mp_next s))) (eatblanks (snd (mp_next s')))"
    by (rule follows_eatblanks)
  then show ?thesis using True assms getValue_follows by (simp add: attr_value_def lockstep_c)
qed

lemma at_end_c: "at_end s \<Longrightarrow> mp_c s = None"
  by (simp add: at_end_def)

lemma attrs_loop_follows:
  "follows s s' \<Longrightarrow> attrs_loop s ats = Inr r \<Longrightarrow>
   \<exists>s1'. attrs_loop s' ats = Inr (fst r, s1') \<and> lockstep (snd r) s1'"
proof (induction s ats arbitrary: s' rule: attrs_loop.induct)
  case (1 s ats)
  let ?g = "getAttr s" and ?g' = "getAttr s'"
  have g: "fst ?g = fst ?g'" "follows (snd ?g) (snd ?g')"
    using getAttr_follows [OF 1(2)] by simp_all
  obtain a where a: "fst ?g = Some a"
    using 1(3) by (cases "fst ?g") (simp_all add: attrs_loop_unfold [of s ats])
  let ?e = "eatblanks (snd ?g)" and ?e' = "eatblanks (snd ?g')"
  let ?r = "attr_value ?e" and ?r' = "attr_value ?e'"
  let ?ats = "AList.update a (fst ?r) ats"
  have u: "attrs_loop s ats =
      (if mp_c (snd ?r) = Some CHR '')'' then Inr (?ats, snd ?r)
       else if mp_c (snd ?r) \<noteq> Some CHR '','' then Inl (syntaxError ''unexpected character'' (snd ?r))
       else attrs_loop (snd (mp_next (snd ?r))) ?ats)"
    using a by (simp add: attrs_loop_unfold [of s ats] Let_def)
  have u': "attrs_loop s' ats =
      (if mp_c (snd ?r') = Some CHR '')'' then Inr (AList.update a (fst ?r') ats, snd ?r')
       else if mp_c (snd ?r') \<noteq> Some CHR '','' then Inl (syntaxError ''unexpected character'' (snd ?r'))
       else attrs_loop (snd (mp_next (snd ?r'))) (AList.update a (fst ?r') ats))"
    using a g(1) by (simp add: attrs_loop_unfold [of s' ats] Let_def)
  have c: "mp_c (snd ?r) \<noteq> None" using 1(3) u by (auto split: if_splits)
  have fe: "follows ?e ?e'" using g(2) by (rule follows_eatblanks)
  have le: "lockstep ?e ?e'"
  proof (rule ccontr)
    assume "\<not> lockstep ?e ?e'"
    then have "at_end ?e" using fe by (simp add: follows_def ahead_at_end)
    then have "attr_value ?e = (None, ?e)" "mp_c ?e = None"
      by (simp_all add: attr_value_def at_end_c)
    then show False using c by simp
  qed
  have "\<not> at_end (snd ?r)" using c by (auto simp add: at_end_def)
  then have r: "fst ?r = fst ?r'" "follows (snd ?r) (snd ?r')"
    using attr_value_follows [OF le] by simp_all
  have lr: "lockstep (snd ?r) (snd ?r')"
    using r(2) c by (auto simp add: follows_def ahead_c)
  then have cr: "mp_c (snd ?r') = mp_c (snd ?r)" by (simp add: lockstep_c)
  show ?case
  proof (cases "mp_c (snd ?r) = Some CHR '')''")
    case True
    then show ?thesis using 1(3) u u' cr r(1) lr by auto
  next
    case False
    then have k: "mp_c (snd ?r) = Some CHR '',''" using 1(3) u by (auto split: if_splits)
    have rec: "attrs_loop (snd (mp_next (snd ?r))) ?ats = Inr r" using 1(3) u False k by simp
    have "follows (snd (mp_next (snd ?r))) (snd (mp_next (snd ?r')))"
      using lr by (intro next_follows lockstep_lockstep0)
    moreover have "\<And>s'. follows (snd (mp_next (snd ?r))) s' \<Longrightarrow>
        attrs_loop (snd (mp_next (snd ?r))) ?ats = Inr r \<Longrightarrow>
        \<exists>s1'. attrs_loop s' ?ats = Inr (fst r, s1') \<and> lockstep (snd r) s1'"
      using 1(1) [OF refl prod.collapse a refl refl prod.collapse refl] False k
      by (simp add: attr_value_def)
    ultimately have "\<exists>s1'. attrs_loop (snd (mp_next (snd ?r'))) ?ats = Inr (fst r, s1') \<and> lockstep (snd r) s1'"
      using rec by blast
    then show ?thesis using u' cr False k r(1) by simp
  qed
qed

lemma get_attrs_follows:
  "follows s s' \<Longrightarrow> get_attrs s = Inr r \<Longrightarrow>
   \<exists>s1'. get_attrs s' = Inr (fst r, s1') \<and> follows (snd r) s1'"
proof -
  assume f: "follows s s'" and a: "get_attrs s = Inr r"
  show ?thesis
  proof (cases "ahead s s'")
    case True
    then have "get_attrs s = Inr ([], s)" "get_attrs s' = Inr ([], s')"
      by (simp_all add: get_attrs_def ahead_c)
    then show ?thesis using a f by auto
  next
    case False
    then have l: "lockstep s s'" using f by (simp add: follows_def)
    then have c: "mp_c s' = mp_c s" by (simp add: lockstep_c)
    show ?thesis
    proof (cases "mp_c s = Some CHR ''(''")
      case p: False
      then show ?thesis using a c f by (auto simp add: get_attrs_def)
    next
      case p: True
      obtain ats s1 where al: "attrs_loop (snd (mp_next s)) [] = Inr (ats, s1)"
        using a p by (cases "attrs_loop (snd (mp_next s)) []") (auto simp add: get_attrs_def)
      have c1: "mp_c s1 = Some CHR '')''" and r: "r = (ats, snd (mp_next s1))"
        using a p al by (auto simp add: get_attrs_def split: if_splits)
      have "follows (snd (mp_next s)) (snd (mp_next s'))"
        using l by (intro next_follows lockstep_lockstep0)
      then obtain s1' where al': "attrs_loop (snd (mp_next s')) [] = Inr (ats, s1')"
        and l1: "lockstep s1 s1'"
        using attrs_loop_follows [OF _ al] by auto
      have "follows (snd (mp_next s1)) (snd (mp_next s1'))"
        using l1 by (intro next_follows lockstep_lockstep0)
      moreover have "mp_c s1' = Some CHR '')''" using l1 c1 by (simp add: lockstep_c)
      ultimately show ?thesis using p c al' r by (simp add: get_attrs_def)
    qed
  qed
qed

lemma ahead_getAttr: "ahead s s' \<Longrightarrow> getAttr s = (None, s)"
  by (simp add: getAttr_at_end ahead_at_end)

lemma get_id_follows:
  "follows s s' \<Longrightarrow> get_id s = Inr r \<Longrightarrow>
   \<exists>s1'. get_id s' = Inr (fst r, s1') \<and> follows (snd r) s1'"
proof -
  assume f: "follows s s'" and a: "get_id s = Inr r"
  show ?thesis
  proof (cases "ahead s s'")
    case True
    then have "get_id s = Inr (None, s)" "get_id s' = Inr (None, s')"
      by (simp_all add: get_id_def ahead_c)
    then show ?thesis using a f by auto
  next
    case False
    then have l: "lockstep s s'" using f by (simp add: follows_def)
    then have c: "mp_c s' = mp_c s" by (simp add: lockstep_c)
    show ?thesis
    proof (cases "mp_c s = Some CHR ''#''")
      case p: False
      then show ?thesis using a c f by (auto simp add: get_id_def)
    next
      case p: True
      have "follows (snd (mp_next s)) (snd (mp_next s'))"
        using l by (intro next_follows lockstep_lockstep0)
      then have "fst (getAttr (snd (mp_next s))) = fst (getAttr (snd (mp_next s'))) \<and>
        follows (snd (getAttr (snd (mp_next s)))) (snd (getAttr (snd (mp_next s'))))"
        by (rule getAttr_follows)
      then show ?thesis using a p c
        by (auto simp add: get_id_def Let_def split_beta prod_eq_iff split: if_splits)
    qed
  qed
qed

lemma classes_loop_follows:
  "follows s s' \<Longrightarrow> classes_loop s cls = Inr r \<Longrightarrow>
   \<exists>s1'. classes_loop s' cls = Inr (fst r, s1') \<and> follows (snd r) s1'"
proof (induction s cls arbitrary: s' rule: classes_loop.induct)
  case (1 s cls)
  show ?case
  proof (cases "ahead s s'")
    case True
    then have "classes_loop s cls = Inr (cls, s)" "classes_loop s' cls = Inr (cls, s')"
      by (simp_all add: classes_loop.simps [of s] classes_loop.simps [of s'] ahead_c)
    then show ?thesis using 1(2,3) by auto
  next
    case False
    then have l: "lockstep s s'" using 1(2) by (simp add: follows_def)
    then have c: "mp_c s' = mp_c s" by (simp add: lockstep_c)
    show ?thesis
    proof (cases "mp_c s = Some CHR ''.''")
      case p: False
      then show ?thesis using 1(2,3) c
        by (auto simp add: classes_loop.simps [of s] classes_loop.simps [of s'])
    next
      case p: True
      let ?g = "getAttr (snd (mp_next s))" and ?g' = "getAttr (snd (mp_next s'))"
      have "follows (snd (mp_next s)) (snd (mp_next s'))"
        using l by (intro next_follows lockstep_lockstep0)
      then have g: "fst ?g = fst ?g'" "follows (snd ?g) (snd ?g')"
        using getAttr_follows by simp_all
      obtain cl where cl: "fst ?g = Some cl"
        using 1(3) p by (cases "fst ?g") (simp_all add: classes_loop.simps [of s] split_beta)
      have rec: "classes_loop (snd ?g) (cls @ [cl]) = Inr r"
        using 1(3) p cl by (simp add: classes_loop.simps [of s] split_beta)
      have "\<exists>s1'. classes_loop (snd ?g') (cls @ [cl]) = Inr (fst r, s1') \<and> follows (snd r) s1'"
        using 1(1) [OF p refl prod.collapse cl g(2) rec] .
      then show ?thesis using p c cl g(1)
        by (simp add: classes_loop.simps [of s'] split_beta)
    qed
  qed
qed

lemma segment_follows:
  assumes "lockstep0 s s'" and "segment s = Inr r"
  shows "\<exists>s1'. segment s' = Inr (fst r, s1') \<and> follows (snd r) s1'"
proof -
  let ?g = "getAttr (snd (mp_next s))" and ?g' = "getAttr (snd (mp_next s'))"
  have "follows (snd (mp_next s)) (snd (mp_next s'))" using assms(1) by (rule next_follows)
  then have g: "fst ?g = fst ?g'" "follows (snd ?g) (snd ?g')"
    using getAttr_follows by simp_all
  obtain i s2 where i: "get_id (snd ?g) = Inr (i, s2)"
    using assms(2) by (cases "get_id (snd ?g)") (auto simp add: segment_def Let_def split_beta)
  obtain cls s3 where c: "classes_loop s2 [] = Inr (cls, s3)"
    using assms(2) i by (cases "classes_loop s2 []") (auto simp add: segment_def Let_def split_beta)
  obtain ats s4 where t: "get_attrs s3 = Inr (ats, s4)"
    using assms(2) i c by (cases "get_attrs s3") (auto simp add: segment_def Let_def split_beta)
  obtain s2' where i': "get_id (snd ?g') = Inr (i, s2')" and f2: "follows s2 s2'"
    using get_id_follows [OF g(2) i] by auto
  obtain s3' where c': "classes_loop s2' [] = Inr (cls, s3')" and f3: "follows s3 s3'"
    using classes_loop_follows [OF f2 c] by auto
  obtain s4' where t': "get_attrs s3' = Inr (ats, s4')" and f4: "follows s4 s4'"
    using get_attrs_follows [OF f3 t] by auto
  have "follows (eatblanks s4) (eatblanks s4')" using f4 by (rule follows_eatblanks)
  moreover have "segment s = Inr (\<lparr>tag = (case fst ?g of None \<Rightarrow> ''div'' | Some x \<Rightarrow> x), id' = i,
      classes = cls, attrs = ats\<rparr>, eatblanks s4)"
    using i c t by (simp add: segment_def Let_def split_beta)
  moreover have "segment s' = Inr (\<lparr>tag = (case fst ?g of None \<Rightarrow> ''div'' | Some x \<Rightarrow> x), id' = i,
      classes = cls, attrs = ats\<rparr>, eatblanks s4')"
    using i' c' t' g(1) by (simp add: segment_def Let_def split_beta)
  ultimately show ?thesis using assms(2) by auto
qed

lemma parse_loop_at_end:
  "length (mp_txt s) \<le> mp_pos s \<Longrightarrow>
   parse_loop s rs = (Some (rs @ [default_div]), s\<lparr>mp_c := None\<rparr>)"
  by (simp add: parse_loop.simps [of s rs] segment_at_end)

lemma parse_loop_follows:
  "lockstep0 s s' \<Longrightarrow> fst (parse_loop s rs) = Some chain \<Longrightarrow>
   fst (parse_loop s' rs) = Some (chain @ [default_div]) \<and>
   console (snd (parse_loop s' rs)) = console (snd (parse_loop s rs))"
proof (induction s rs arbitrary: s' rule: parse_loop.induct)
  case (1 s rs)
  obtain d s1 where seg: "segment s = Inr (d, s1)"
    using 1(3) by (cases "segment s") (auto simp add: parse_loop.simps [of s rs])
  obtain s1' where seg': "segment s' = Inr (d, s1')" and f: "follows s1 s1'"
    using segment_follows [OF 1(2) seg] by auto
  show ?case
  proof (cases "ahead s1 s1'")
    case True
    then have a: "mp_c s1 = None" "mp_c s1' = Some CHR ''>''" "length (mp_txt s1') \<le> mp_pos s1'"
      "console s1' = console s1"
      by (simp_all add: ahead_def at_end_def)
    have "parse_loop s rs = (Some (rs @ [d]), s1)"
      using seg a(1) by (simp add: parse_loop.simps [of s rs])
    moreover have "parse_loop s' rs = parse_loop s1' (rs @ [d])"
      using seg' a(2) by (simp add: parse_loop.simps [of s' rs])
    moreover have "parse_loop s1' (rs @ [d]) = (Some ((rs @ [d]) @ [default_div]), s1'\<lparr>mp_c := None\<rparr>)"
      using a(3) by (rule parse_loop_at_end)
    ultimately show ?thesis using 1(3) a(4) by simp
  next
    case False
    then have l: "lockstep s1 s1'" using f by (simp add: follows_def)
    then obtain y where c: "mp_c s1 = Some y" "mp_c s1' = Some y"
      using lockstep_c [of s1 s1'] by auto
    have y: "y = CHR ''>''"
      using 1(3) seg c by (auto simp add: parse_loop.simps [of s rs] split: if_splits)
    have r: "parse_loop s rs = parse_loop s1 (rs @ [d])"
      using seg c y by (simp add: parse_loop.simps [of s rs])
    have r': "parse_loop s' rs = parse_loop s1' (rs @ [d])"
      using seg' c y by (simp add: parse_loop.simps [of s' rs])
    have "fst (parse_loop s1 (rs @ [d])) = Some chain" using 1(3) r by simp
    then show ?thesis
      using 1(1) [OF seg refl refl _ _ lockstep_lockstep0 [OF l]] c y r r' by simp
  qed
qed

lemma parse_append_gt:
  assumes "parse t = (Some chain, errors)"
  shows "parse (t @ ''>'') = (Some (chain @ [default_div]), [])"
proof -
  have l: "lockstep0 (start t) (start (t @ ''>''))" by (simp add: lockstep0_def start_def)
  have f: "fst (parse_loop (start t) []) = Some chain"
    using assms by (simp add: parse_def parse_run_def split_beta)
  then have c: "console (snd (parse_loop (start t) [])) = []"
    using parse_loop_console [of "start t" "[]"] by (simp add: start_def)
  show ?thesis using parse_loop_follows [OF l f] c
    by (simp add: parse_def parse_run_def split_beta prod_eq_iff)
qed

text \<open>
  The other direction: where the run on the text reports a syntax error, so does the run on
  the text followed by \<open>>\<close>.
\<close>

lemma attrs_loop_fails:
  "follows s s' \<Longrightarrow> attrs_loop s ats = Inl e \<Longrightarrow> \<exists>e'. attrs_loop s' ats = Inl e'"
proof (induction s ats arbitrary: s' rule: attrs_loop.induct)
  case (1 s ats)
  let ?g = "getAttr s" and ?g' = "getAttr s'"
  have g: "fst ?g = fst ?g'" "follows (snd ?g) (snd ?g')"
    using getAttr_follows [OF 1(2)] by simp_all
  show ?case
  proof (cases "fst ?g")
    case None
    then show ?thesis using g(1) by (simp add: attrs_loop_unfold [of s' ats])
  next
    case (Some a)
    let ?e = "eatblanks (snd ?g)" and ?e' = "eatblanks (snd ?g')"
    let ?r = "attr_value ?e" and ?r' = "attr_value ?e'"
    let ?ats = "AList.update a (fst ?r) ats"
    have u: "attrs_loop s ats =
        (if mp_c (snd ?r) = Some CHR '')'' then Inr (?ats, snd ?r)
         else if mp_c (snd ?r) \<noteq> Some CHR '','' then Inl (syntaxError ''unexpected character'' (snd ?r))
         else attrs_loop (snd (mp_next (snd ?r))) ?ats)"
      using Some by (simp add: attrs_loop_unfold [of s ats] Let_def)
    have u': "attrs_loop s' ats =
        (if mp_c (snd ?r') = Some CHR '')'' then Inr (AList.update a (fst ?r') ats, snd ?r')
         else if mp_c (snd ?r') \<noteq> Some CHR '','' then Inl (syntaxError ''unexpected character'' (snd ?r'))
         else attrs_loop (snd (mp_next (snd ?r'))) (AList.update a (fst ?r') ats))"
      using Some g(1) by (simp add: attrs_loop_unfold [of s' ats] Let_def)
    have fe: "follows ?e ?e'" using g(2) by (rule follows_eatblanks)
    have "(fst ?r = fst ?r' \<and> follows (snd ?r) (snd ?r')) \<or> (at_end (snd ?r) \<and> at_end (snd ?r'))"
    proof (cases "ahead ?e ?e'")
      case True
      then have "attr_value ?e = (None, ?e)" "attr_value ?e' = (None, ?e')"
        by (simp_all add: attr_value_def ahead_c)
      then show ?thesis using fe by simp
    next
      case False
      then have "lockstep ?e ?e'" using fe by (simp add: follows_def)
      then show ?thesis by (rule attr_value_follows)
    qed
    then show ?thesis
    proof
      assume "at_end (snd ?r) \<and> at_end (snd ?r')"
      then have "mp_c (snd ?r') = None" by (simp add: at_end_c)
      then show ?thesis using u' by simp
    next
      assume r: "fst ?r = fst ?r' \<and> follows (snd ?r) (snd ?r')"
      show ?thesis
      proof (cases "ahead (snd ?r) (snd ?r')")
        case True
        then have "mp_c (snd ?r') = Some CHR ''>''" by (simp add: ahead_c)
        then show ?thesis using u' by simp
      next
        case False
        then have lr: "lockstep (snd ?r) (snd ?r')" using r by (simp add: follows_def)
        then have cr: "mp_c (snd ?r') = mp_c (snd ?r)" by (simp add: lockstep_c)
        have n: "mp_c (snd ?r) \<noteq> Some CHR '')''" using 1(3) u by (auto split: if_splits)
        show ?thesis
        proof (cases "mp_c (snd ?r) = Some CHR '',''")
          case False
          then show ?thesis using u' cr n by simp
        next
          case True
          have rec: "attrs_loop (snd (mp_next (snd ?r))) ?ats = Inl e" using 1(3) u n True by simp
          have "follows (snd (mp_next (snd ?r))) (snd (mp_next (snd ?r')))"
            using lr by (intro next_follows lockstep_lockstep0)
          moreover have "\<And>s'. follows (snd (mp_next (snd ?r))) s' \<Longrightarrow>
              attrs_loop (snd (mp_next (snd ?r))) ?ats = Inl e \<Longrightarrow>
              \<exists>e'. attrs_loop s' ?ats = Inl e'"
            using 1(1) [OF refl prod.collapse Some refl refl prod.collapse refl] n True
            by (simp add: attr_value_def)
          ultimately have "\<exists>e'. attrs_loop (snd (mp_next (snd ?r'))) ?ats = Inl e'"
            using rec by blast
          then show ?thesis using u' cr n True r by simp
        qed
      qed
    qed
  qed
qed

lemma get_attrs_fails:
  assumes "follows s s'" and "get_attrs s = Inl e"
  shows "\<exists>e'. get_attrs s' = Inl e'"
proof (cases "ahead s s'")
  case True
  then have "get_attrs s = Inr ([], s)" by (simp add: get_attrs_def ahead_c)
  then show ?thesis using assms(2) by simp
next
  case False
  then have l: "lockstep s s'" using assms(1) by (simp add: follows_def)
  then have c: "mp_c s' = mp_c s" by (simp add: lockstep_c)
  have p: "mp_c s = Some CHR ''(''" using assms(2) by (auto simp add: get_attrs_def split: if_splits)
  have f: "follows (snd (mp_next s)) (snd (mp_next s'))"
    using l by (intro next_follows lockstep_lockstep0)
  show ?thesis
  proof (cases "attrs_loop (snd (mp_next s)) []")
    case (Inl e1)
    then obtain e' where "attrs_loop (snd (mp_next s')) [] = Inl e'"
      using attrs_loop_fails [OF f] by blast
    then show ?thesis using p c by (simp add: get_attrs_def)
  next
    case (Inr r)
    then obtain s1' where al': "attrs_loop (snd (mp_next s')) [] = Inr (fst r, s1')"
      and l1: "lockstep (snd r) s1'"
      using attrs_loop_follows [OF f] by blast
    have "mp_c (snd r) \<noteq> Some CHR '')''"
      using assms(2) p Inr by (auto simp add: get_attrs_def split_beta split: if_splits)
    then have "mp_c s1' \<noteq> Some CHR '')''" using l1 by (simp add: lockstep_c)
    then show ?thesis using p c al' by (simp add: get_attrs_def)
  qed
qed

lemma get_id_fails:
  assumes "follows s s'" and "get_id s = Inl e"
  shows "\<exists>e'. get_id s' = Inl e'"
proof (cases "ahead s s'")
  case True
  then have "get_id s = Inr (None, s)" by (simp add: get_id_def ahead_c)
  then show ?thesis using assms(2) by simp
next
  case False
  then have l: "lockstep s s'" using assms(1) by (simp add: follows_def)
  then have c: "mp_c s' = mp_c s" by (simp add: lockstep_c)
  have p: "mp_c s = Some CHR ''#''" using assms(2) by (auto simp add: get_id_def split: if_splits)
  have "follows (snd (mp_next s)) (snd (mp_next s'))"
    using l by (intro next_follows lockstep_lockstep0)
  then have "fst (getAttr (snd (mp_next s))) = fst (getAttr (snd (mp_next s')))"
    using getAttr_follows by simp
  then show ?thesis using assms(2) p c
    by (auto simp add: get_id_def Let_def split_beta split: if_splits)
qed

lemma classes_loop_fails:
  "follows s s' \<Longrightarrow> classes_loop s cls = Inl e \<Longrightarrow> \<exists>e'. classes_loop s' cls = Inl e'"
proof (induction s cls arbitrary: s' rule: classes_loop.induct)
  case (1 s cls)
  show ?case
  proof (cases "ahead s s'")
    case True
    then have "classes_loop s cls = Inr (cls, s)"
      by (simp add: classes_loop.simps [of s] ahead_c)
    then show ?thesis using 1(3) by simp
  next
    case False
    then have l: "lockstep s s'" using 1(2) by (simp add: follows_def)
    then have c: "mp_c s' = mp_c s" by (simp add: lockstep_c)
    have p: "mp_c s = Some CHR ''.''"
      using 1(3) by (auto simp add: classes_loop.simps [of s] split: if_splits)
    let ?g = "getAttr (snd (mp_next s))" and ?g' = "getAttr (snd (mp_next s'))"
    have "follows (snd (mp_next s)) (snd (mp_next s'))"
      using l by (intro next_follows lockstep_lockstep0)
    then have g: "fst ?g = fst ?g'" "follows (snd ?g) (snd ?g')"
      using getAttr_follows by simp_all
    show ?thesis
    proof (cases "fst ?g")
      case None
      then show ?thesis using p c g(1) by (simp add: classes_loop.simps [of s'] split_beta)
    next
      case (Some cl)
      have rec: "classes_loop (snd ?g) (cls @ [cl]) = Inl e"
        using 1(3) p Some by (simp add: classes_loop.simps [of s] split_beta)
      have "\<exists>e'. classes_loop (snd ?g') (cls @ [cl]) = Inl e'"
        using 1(1) [OF p refl prod.collapse Some g(2) rec] .
      then show ?thesis using p c Some g(1)
        by (simp add: classes_loop.simps [of s'] split_beta)
    qed
  qed
qed

lemma segment_fails:
  assumes "lockstep0 s s'" and "segment s = Inl e"
  shows "\<exists>e'. segment s' = Inl e'"
proof -
  let ?g = "getAttr (snd (mp_next s))" and ?g' = "getAttr (snd (mp_next s'))"
  have "follows (snd (mp_next s)) (snd (mp_next s'))" using assms(1) by (rule next_follows)
  then have g: "follows (snd ?g) (snd ?g')" using getAttr_follows by simp
  show ?thesis
  proof (cases "get_id (snd ?g)")
    case (Inl e1)
    then obtain e' where "get_id (snd ?g') = Inl e'" using get_id_fails [OF g] by blast
    then show ?thesis by (simp add: segment_def Let_def split_beta)
  next
    case i: (Inr ri)
    obtain s2' where i': "get_id (snd ?g') = Inr (fst ri, s2')" and f2: "follows (snd ri) s2'"
      using get_id_follows [OF g i] by auto
    show ?thesis
    proof (cases "classes_loop (snd ri) []")
      case (Inl e1)
      then obtain e' where "classes_loop s2' [] = Inl e'" using classes_loop_fails [OF f2] by blast
      then show ?thesis using i' by (simp add: segment_def Let_def split_beta)
    next
      case c: (Inr rc)
      obtain s3' where c': "classes_loop s2' [] = Inr (fst rc, s3')" and f3: "follows (snd rc) s3'"
        using classes_loop_follows [OF f2 c] by auto
      show ?thesis
      proof (cases "get_attrs (snd rc)")
        case (Inl e1)
        then obtain e' where "get_attrs s3' = Inl e'" using get_attrs_fails [OF f3] by blast
        then show ?thesis using i' c' by (simp add: segment_def Let_def split_beta)
      next
        case (Inr ra)
        then show ?thesis using assms(2) i c by (simp add: segment_def Let_def split_beta)
      qed
    qed
  qed
qed

lemma parse_loop_fails:
  "lockstep0 s s' \<Longrightarrow> fst (parse_loop s rs) = None \<Longrightarrow> fst (parse_loop s' rs) = None"
proof (induction s rs arbitrary: s' rule: parse_loop.induct)
  case (1 s rs)
  show ?case
  proof (cases "segment s")
    case (Inl e)
    then obtain e' where "segment s' = Inl e'" using segment_fails [OF 1(2)] by blast
    then show ?thesis by (simp add: parse_loop.simps [of s' rs] Let_def)
  next
    case (Inr r)
    obtain d s1 where r: "r = (d, s1)" by (cases r)
    then have seg: "segment s = Inr (d, s1)" using Inr by simp
    obtain s1' where seg': "segment s' = Inr (d, s1')" and f: "follows s1 s1'"
      using segment_follows [OF 1(2) seg] by auto
    have n: "mp_c s1 \<noteq> None"
      using 1(3) seg by (auto simp add: parse_loop.simps [of s rs] Let_def split: if_splits)
    then have l: "lockstep s1 s1'" using f by (auto simp add: follows_def ahead_c)
    then have c: "mp_c s1' = mp_c s1" by (simp add: lockstep_c)
    show ?thesis
    proof (cases "mp_c s1 = Some CHR ''>''")
      case False
      then show ?thesis using seg' c n by (simp add: parse_loop.simps [of s' rs] Let_def)
    next
      case True
      have "fst (parse_loop s1 (rs @ [d])) = None"
        using 1(3) seg True by (simp add: parse_loop.simps [of s rs] Let_def)
      then have "fst (parse_loop s1' (rs @ [d])) = None"
        using 1(1) [OF seg refl refl _ _ lockstep_lockstep0 [OF l]] True by simp
      then show ?thesis using seg' c True by (simp add: parse_loop.simps [of s' rs] Let_def)
    qed
  qed
qed

lemma parse_append_gt_fails:
  assumes "fst (parse t) = None"
  shows "fst (parse (t @ ''>'')) = None \<and> snd (parse (t @ ''>'')) \<noteq> []"
proof -
  have l: "lockstep0 (start t) (start (t @ ''>''))" by (simp add: lockstep0_def start_def)
  have "fst (parse_loop (start t) []) = None"
    using assms by (simp add: parse_def parse_run_def split_beta)
  then have "fst (parse_loop (start (t @ ''>'')) []) = None" using l by (rule parse_loop_fails [rotated])
  then show ?thesis using parse_loop_console [of "start (t @ ''>'')" "[]"]
    by (simp add: parse_def parse_run_def split_beta)
qed

lemma parse_append_gt_iff:
  "fst (parse (t @ ''>'')) = map_option (\<lambda>chain. chain @ [default_div]) (fst (parse t))"
proof (cases "fst (parse t)")
  case None
  then show ?thesis using parse_append_gt_fails [of t] by simp
next
  case (Some chain)
  then have "parse t = (Some chain, snd (parse t))" by (simp add: prod_eq_iff)
  then have "parse (t @ ''>'') = (Some (chain @ [default_div]), [])" by (rule parse_append_gt)
  then show ?thesis using Some by simp
qed

section \<open>The claims\<close>

text \<open>
  C10. In a quoted value a quote character that comes right after a backslash never ends
  the value, whatever stands before the backslash: the loop of \<open>_getString\<close> goes on
  with the quote added to the text. So a quoted value that was closed never ends in a
  backslash, and in \<open>a(x="ab\\")\<close> the last quote does not close the value: the scan runs to
  the end of the input and \<open>parse\<close> fails.
\<close>

theorem escaped_quote_never_closes:
  "(mp_next s = (True, s') \<and> mp_c s' = dchar \<and> mp_p s' = Some BACKSLASH \<longrightarrow>
      string_loop s dchar str = string_loop s' dchar (str @ js_char dchar)) \<and>
   (mp_c (snd (string_loop s (mp_c s) [])) \<noteq> None \<longrightarrow>
      fst (getString s) = [] \<or> last (fst (getString s)) \<noteq> BACKSLASH) \<and>
   getString \<lparr>mp_txt = ''a(x='' @ [DQUOTE] @ ''ab'' @ [BACKSLASH, BACKSLASH, DQUOTE] @ '')'',
       mp_pos = 5, mp_c = Some DQUOTE, mp_p = Some CHR ''='', console = []\<rparr> =
     (''ab'' @ [BACKSLASH, BACKSLASH, DQUOTE] @ '')'',
      \<lparr>mp_txt = ''a(x='' @ [DQUOTE] @ ''ab'' @ [BACKSLASH, BACKSLASH, DQUOTE] @ '')'',
       mp_pos = 11, mp_c = None, mp_p = Some DQUOTE,
       console = [(11, None, ''unclosed quote'')]\<rparr>) \<and>
   parse (''a(x='' @ [DQUOTE] @ ''ab'' @ [BACKSLASH, BACKSLASH, DQUOTE] @ '')'') =
     (None, [(11, None, ''unclosed quote''), (11, None, ''unexpected character'')])"
proof (intro conjI impI)
  assume a: "mp_next s = (True, s') \<and> mp_c s' = dchar \<and> mp_p s' = Some BACKSLASH"
  then show "string_loop s dchar str = string_loop s' dchar (str @ js_char dchar)"
    by (simp add: string_loop.simps [of s dchar str])
next
  assume "mp_c (snd (string_loop s (mp_c s) [])) \<noteq> None"
  then show "fst (getString s) = [] \<or> last (fst (getString s)) \<noteq> BACKSLASH"
    using string_loop_last [of "[]" s "mp_c s"] by (simp add: getString_fst)
next
  show "getString \<lparr>mp_txt = ''a(x='' @ [DQUOTE] @ ''ab'' @ [BACKSLASH, BACKSLASH, DQUOTE] @ '')'',
       mp_pos = 5, mp_c = Some DQUOTE, mp_p = Some CHR ''='', console = []\<rparr> =
     (''ab'' @ [BACKSLASH, BACKSLASH, DQUOTE] @ '')'',
      \<lparr>mp_txt = ''a(x='' @ [DQUOTE] @ ''ab'' @ [BACKSLASH, BACKSLASH, DQUOTE] @ '')'',
       mp_pos = 11, mp_c = None, mp_p = Some DQUOTE,
       console = [(11, None, ''unclosed quote'')]\<rparr>)"
    by code_simp
next
  show "parse (''a(x='' @ [DQUOTE] @ ''ab'' @ [BACKSLASH, BACKSLASH, DQUOTE] @ '')'') =
     (None, [(11, None, ''unclosed quote''), (11, None, ''unexpected character'')])"
    by code_simp
qed

theorem escaped_quote_never_closes_witness:
  "mp_next \<lparr>mp_txt = [DQUOTE, BACKSLASH, DQUOTE], mp_pos = 2, mp_c = Some BACKSLASH,
       mp_p = Some DQUOTE, console = []\<rparr> =
     (True, \<lparr>mp_txt = [DQUOTE, BACKSLASH, DQUOTE], mp_pos = 3, mp_c = Some DQUOTE,
       mp_p = Some BACKSLASH, console = []\<rparr>) \<and>
   string_loop \<lparr>mp_txt = [DQUOTE, BACKSLASH, DQUOTE], mp_pos = 2, mp_c = Some BACKSLASH,
       mp_p = Some DQUOTE, console = []\<rparr> (Some DQUOTE) [BACKSLASH] =
     string_loop \<lparr>mp_txt = [DQUOTE, BACKSLASH, DQUOTE], mp_pos = 3, mp_c = Some DQUOTE,
       mp_p = Some BACKSLASH, console = []\<rparr> (Some DQUOTE) [BACKSLASH, DQUOTE] \<and>
   mp_c (snd (string_loop \<lparr>mp_txt = [DQUOTE, CHR ''a'', DQUOTE], mp_pos = 1, mp_c = Some DQUOTE,
       mp_p = None, console = []\<rparr> (Some DQUOTE) [])) = Some DQUOTE \<and>
   fst (getString \<lparr>mp_txt = [DQUOTE, CHR ''a'', DQUOTE], mp_pos = 1, mp_c = Some DQUOTE,
       mp_p = None, console = []\<rparr>) \<noteq> [] \<and>
   last (fst (getString \<lparr>mp_txt = [DQUOTE, CHR ''a'', DQUOTE], mp_pos = 1, mp_c = Some DQUOTE,
       mp_p = None, console = []\<rparr>)) \<noteq> BACKSLASH"
proof -
  let ?sA = "\<lparr>mp_txt = [DQUOTE, BACKSLASH, DQUOTE], mp_pos = 2, mp_c = Some BACKSLASH,
       mp_p = Some DQUOTE, console = []\<rparr>"
  let ?sA' = "\<lparr>mp_txt = [DQUOTE, BACKSLASH, DQUOTE], mp_pos = 3, mp_c = Some DQUOTE,
       mp_p = Some BACKSLASH, console = []\<rparr>"
  let ?sB = "\<lparr>mp_txt = [DQUOTE, CHR ''a'', DQUOTE], mp_pos = 1, mp_c = Some DQUOTE,
       mp_p = None, console = []\<rparr>"
  have n: "mp_next ?sA = (True, ?sA')" by code_simp
  have c: "mp_c (snd (string_loop ?sB (Some DQUOTE) [])) = Some DQUOTE" by code_simp
  have g: "fst (getString ?sB) \<noteq> []" by code_simp
  show ?thesis
    using n c g escaped_quote_never_closes [of ?sA ?sA' "Some DQUOTE" "[BACKSLASH]"]
      escaped_quote_never_closes [of ?sB]
    by simp
qed

text \<open>
  C1. A rule whose definition does not parse does not stop at that rule: \<open>parse\<close> returns
  \<open>null\<close>, \<open>elements.pop()\<close> raises a \<open>TypeError\<close> that nothing catches, and
  \<open>convertTags\<close> ends there. With the rules \<open>p: #\<close> and \<open>b: i\<close> the element \<open>b\<close> stays as it is,
  while the second rule alone turns it into an \<open>i\<close>.
\<close>

theorem failed_rule_aborts_convertTags:
  "convertTags flat_document (Some [(''p'', ''#''), (''b'', ''i'')])
       [\<lparr>tagName = ''b'', attributes = [], childNodes = []\<rparr>] =
     (Some TypeError, [\<lparr>tagName = ''b'', attributes = [], childNodes = []\<rparr>],
      [(1, None, ''invalid ID'')]) \<and>
   convertTags flat_document (Some [(''b'', ''i'')])
       [\<lparr>tagName = ''b'', attributes = [], childNodes = []\<rparr>] =
     (None, [\<lparr>tagName = ''i'', attributes = [], childNodes = []\<rparr>], [])"
  by (intro conjI; code_simp)

text \<open>
  C3. The substitution replaces the first occurrence only of each placeholder: for an
  element with \<open>href="x"\<close> and the rule \<open>a(title='${href}-${href}')\<close> the title of the
  converted element is \<open>x-${href}\<close>.
\<close>

theorem placeholder_replaced_once:
  "parse (''a(title='' @ [SQUOTE] @ ''${href}-${href}'' @ [SQUOTE] @ '')'') =
     (Some [\<lparr>tag = ''a'', id' = None, classes = [],
             attrs = [(''title'', Some ''${href}-${href}'')]\<rparr>], []) \<and>
   convertElement []
       \<lparr>tag = ''a'', id' = None, classes = [], attrs = [(''title'', Some ''${href}-${href}'')]\<rparr>
       \<lparr>tagName = ''a'', attributes = [(''href'', ''x'')], childNodes = [] :: nat list\<rparr> =
     ([], \<lparr>tagName = ''a'', attributes = [(''title'', ''x-${href}''), (''href'', ''x'')],
           childNodes = []\<rparr>)"
  by (intro conjI; code_simp)









text \<open>
  C8. \<open>parse\<close> terminates on every input. Each loop of the parser is a recursive function
  of the model, and \<open>f_dom x\<close> says that the recursion of \<open>f\<close> ends from the argument
  \<open>x\<close>: this holds for every loop and every argument, because a successful \<open>_next\<close>
  makes the measure \<open>remaining\<close> smaller and no loop goes on after a \<open>_next\<close> that fails.
  The call returns either a chain of at least one descriptor and reports nothing, or no
  chain and at least one reported syntax error; and the number of characters read, which
  is the final \<open>_pos\<close>, is at most the length of the input.
\<close>

theorem parse_terminates:
  "(All eatblanks_dom \<and> All attr_loop_dom \<and> All string_loop_dom \<and> All value_loop_dom \<and>
    All classes_loop_dom \<and> All attrs_loop_dom \<and> All parse_loop_dom) \<and>
   (mp_next s = (True, s') \<longrightarrow> mp_pos s' = Suc (mp_pos s) \<and> remaining s' < remaining s) \<and>
   ((\<exists>chain. chain \<noteq> [] \<and> parse t = (Some chain, [])) \<or>
    (\<exists>errors. errors \<noteq> [] \<and> parse t = (None, errors))) \<and>
   mp_pos (snd (parse_run t)) \<le> length t"
proof (intro conjI impI)
  assume n: "mp_next s = (True, s')"
  then show "mp_pos s' = Suc (mp_pos s)" by (auto simp add: mp_next_def split: if_splits)
  show "remaining s' < remaining s" using n by (rule next_True_less)
next
  let ?r = "parse_loop (start t) []"
  have p: "parse t = (fst ?r, console (snd ?r))"
    by (simp add: parse_def parse_run_def split_beta)
  show "(\<exists>chain. chain \<noteq> [] \<and> parse t = (Some chain, [])) \<or>
    (\<exists>errors. errors \<noteq> [] \<and> parse t = (None, errors))"
  proof (cases "fst ?r")
    case None
    then have "console (snd ?r) \<noteq> []" using parse_loop_console [of "start t" "[]"] by simp
    then show ?thesis using None p by simp
  next
    case (Some chain)
    then have "console (snd ?r) = console (start t)"
      using parse_loop_console [of "start t" "[]"] by simp
    then have c: "console (snd ?r) = []" by (simp add: start_def)
    have "chain \<noteq> []" using parse_loop_nonempty [of "start t" "[]"] Some by auto
    then show ?thesis using Some p c by simp
  qed
  have "mp_pos (start t) \<le> length (mp_txt (start t))" by (simp add: start_def)
  then have "mp_pos (snd ?r) \<le> length (mp_txt (snd ?r))"
    by (rule scans_bound [OF scans_parse_loop])
  then show "mp_pos (snd (parse_run t)) \<le> length t"
    using scans_txt [OF scans_parse_loop [of "start t" "[]"]]
    by (simp add: parse_run_def start_def)
qed (rule eatblanks_terminates attr_loop_terminates string_loop_terminates value_loop_terminates
      classes_loop_terminates attrs_loop_terminates parse_loop_terminates)+

theorem parse_terminates_witness:
  "mp_next (start ''a>b'') =
     (True, \<lparr>mp_txt = ''a>b'', mp_pos = 1, mp_c = Some CHR ''a'', mp_p = None, console = []\<rparr>) \<and>
   remaining \<lparr>mp_txt = ''a>b'', mp_pos = 1, mp_c = Some CHR ''a'', mp_p = None, console = []\<rparr>
     < remaining (start ''a>b'') \<and>
   parse_loop_dom (start ''a>b'', []) \<and>
   parse ''a>b'' = (Some [\<lparr>tag = ''a'', id' = None, classes = [], attrs = []\<rparr>,
                          \<lparr>tag = ''b'', id' = None, classes = [], attrs = []\<rparr>], []) \<and>
   mp_pos (snd (parse_run ''a>b'')) \<le> 3"
proof -
  let ?s' = "\<lparr>mp_txt = ''a>b'', mp_pos = 1, mp_c = Some CHR ''a'', mp_p = None, console = []\<rparr>"
  have n: "mp_next (start ''a>b'') = (True, ?s')" by code_simp
  have p: "parse ''a>b'' = (Some [\<lparr>tag = ''a'', id' = None, classes = [], attrs = []\<rparr>,
                          \<lparr>tag = ''b'', id' = None, classes = [], attrs = []\<rparr>], [])"
    by code_simp
  show ?thesis using n p parse_terminates [of "start ''a>b''" ?s' "''a>b''"] by simp
qed

text \<open>
  C5. When the end of the input is reached inside a quoted value, \<open>_getString\<close> reports
  \<open>unclosed quote\<close>; a call of \<open>parse\<close> that reported an unclosed quote returns no
  chain; and every input \<open>a(x=\<close> followed by a quote character and a text without that
  character fails with that report, made at the end of the input. The input
  \<open>a(x="unterminated\<close> is one of them.
\<close>

theorem unclosed_quote_fails:
  "(mp_c (snd (string_loop s (mp_c s) [])) = None \<longrightarrow>
      console (snd (getString s)) =
        console s @ [(mp_pos (snd (string_loop s (mp_c s) [])), None, ''unclosed quote'')]) \<and>
   ((n, ch, ''unclosed quote'') \<in> set (snd (parse t)) \<longrightarrow> fst (parse t) = None) \<and>
   ((q = DQUOTE \<or> q = SQUOTE) \<and> q \<notin> set body \<longrightarrow>
      parse (''a(x='' @ q # body) =
        (None, [(length body + 5, None, ''unclosed quote''),
                (length body + 5, None, ''unexpected character'')]))"
proof (intro conjI impI)
  assume "mp_c (snd (string_loop s (mp_c s) [])) = None"
  then show "console (snd (getString s)) =
        console s @ [(mp_pos (snd (string_loop s (mp_c s) [])), None, ''unclosed quote'')]"
    by (simp add: getString_console)
next
  let ?r = "parse_loop (start t) []"
  assume "(n, ch, ''unclosed quote'') \<in> set (snd (parse t))"
  then have "console (snd ?r) \<noteq> []"
    by (auto simp add: parse_def parse_run_def split_beta)
  moreover have "console (start t) = []" by (simp add: start_def)
  ultimately have "fst ?r = None" using parse_loop_console [of "start t" "[]"] by auto
  then show "fst (parse t) = None" by (simp add: parse_def parse_run_def split_beta)
next
  assume "(q = DQUOTE \<or> q = SQUOTE) \<and> q \<notin> set body"
  then show "parse (''a(x='' @ q # body) =
        (None, [(length body + 5, None, ''unclosed quote''),
                (length body + 5, None, ''unexpected character'')])"
    by (intro parse_unclosed_quote) simp_all
qed

theorem unclosed_quote_fails_witness:
  "mp_c (snd (string_loop \<lparr>mp_txt = [DQUOTE, CHR ''a''], mp_pos = 1, mp_c = Some DQUOTE,
       mp_p = None, console = []\<rparr> (Some DQUOTE) [])) = None \<and>
   console (snd (getString \<lparr>mp_txt = [DQUOTE, CHR ''a''], mp_pos = 1, mp_c = Some DQUOTE,
       mp_p = None, console = []\<rparr>)) = [(2, None, ''unclosed quote'')] \<and>
   DQUOTE \<notin> set ''unterminated'' \<and>
   parse (''a(x='' @ DQUOTE # ''unterminated'') =
     (None, [(17, None, ''unclosed quote''), (17, None, ''unexpected character'')]) \<and>
   (17, None, ''unclosed quote'') \<in> set (snd (parse (''a(x='' @ DQUOTE # ''unterminated''))) \<and>
   fst (parse (''a(x='' @ DQUOTE # ''unterminated'')) = None"
proof -
  let ?s = "\<lparr>mp_txt = [DQUOTE, CHR ''a''], mp_pos = 1, mp_c = Some DQUOTE,
       mp_p = None, console = []\<rparr>"
  have a: "mp_c (snd (string_loop ?s (Some DQUOTE) [])) = None" by code_simp
  have b: "mp_pos (snd (string_loop ?s (Some DQUOTE) [])) = 2" by code_simp
  show ?thesis
    using a b
      unclosed_quote_fails [of ?s 17 None "''a(x='' @ DQUOTE # ''unterminated''" DQUOTE "''unterminated''"]
    by simp
qed



text \<open>
  C9. \<open>parse\<close> of the empty string is not an error: it returns the chain of one default
  descriptor (tag \<open>div\<close>, no id, no classes, no attributes). More generally a \<open>>\<close> at the
  end of the input is not an error either: whenever a text \<open>t\<close> parses to a chain, the text
  \<open>t\<close> followed by \<open>>\<close> parses to that chain followed by the default descriptor, and
  nothing is reported. The final \<open>>\<close> repairs nothing: when \<open>t\<close> does not parse, \<open>t\<close>
  followed by \<open>>\<close> does not parse. So \<open>>\<close> gives two default descriptors, \<open>a>\<close> the
  descriptor of \<open>a\<close> and then the default one, and blanks after the final \<open>>\<close> change
  nothing.
\<close>

theorem empty_input_default_div:
  "parse [] = (Some [\<lparr>tag = ''div'', id' = None, classes = [], attrs = []\<rparr>], []) \<and>
   (fst (parse t) = Some chain \<longrightarrow>
      parse (t @ ''>'') =
        (Some (chain @ [\<lparr>tag = ''div'', id' = None, classes = [], attrs = []\<rparr>]), [])) \<and>
   (fst (parse t) = None \<longrightarrow> fst (parse (t @ ''>'')) = None) \<and>
   parse ''>'' = (Some [\<lparr>tag = ''div'', id' = None, classes = [], attrs = []\<rparr>,
                        \<lparr>tag = ''div'', id' = None, classes = [], attrs = []\<rparr>], []) \<and>
   parse ''a>'' = (Some [\<lparr>tag = ''a'', id' = None, classes = [], attrs = []\<rparr>,
                         \<lparr>tag = ''div'', id' = None, classes = [], attrs = []\<rparr>], []) \<and>
   parse ''a.b > '' = (Some [\<lparr>tag = ''a'', id' = None, classes = [''b''], attrs = []\<rparr>,
                         \<lparr>tag = ''div'', id' = None, classes = [], attrs = []\<rparr>], [])"
proof (intro conjI impI)
  show "parse [] = (Some [\<lparr>tag = ''div'', id' = None, classes = [], attrs = []\<rparr>], [])"
    by code_simp
next
  assume "fst (parse t) = Some chain"
  then have "parse t = (Some chain, snd (parse t))" by (simp add: prod_eq_iff)
  then have "parse (t @ ''>'') = (Some (chain @ [default_div]), [])" by (rule parse_append_gt)
  then show "parse (t @ ''>'') =
        (Some (chain @ [\<lparr>tag = ''div'', id' = None, classes = [], attrs = []\<rparr>]), [])"
    by (simp add: default_div_def)
next
  assume "fst (parse t) = None"
  then show "fst (parse (t @ ''>'')) = None" by (simp add: parse_append_gt_fails)
next
  show "parse ''>'' = (Some [\<lparr>tag = ''div'', id' = None, classes = [], attrs = []\<rparr>,
                        \<lparr>tag = ''div'', id' = None, classes = [], attrs = []\<rparr>], [])"
    by code_simp
next
  show "parse ''a>'' = (Some [\<lparr>tag = ''a'', id' = None, classes = [], attrs = []\<rparr>,
                         \<lparr>tag = ''div'', id' = None, classes = [], attrs = []\<rparr>], [])"
    by code_simp
next
  show "parse ''a.b > '' = (Some [\<lparr>tag = ''a'', id' = None, classes = [''b''], attrs = []\<rparr>,
                         \<lparr>tag = ''div'', id' = None, classes = [], attrs = []\<rparr>], [])"
    by code_simp
qed

theorem empty_input_default_div_witness:
  "fst (parse ''a#i.b(x=1, y) > p'') =
     Some [\<lparr>tag = ''a'', id' = Some ''i'', classes = [''b''],
             attrs = [(''x'', Some ''1''), (''y'', None)]\<rparr>,
           \<lparr>tag = ''p'', id' = None, classes = [], attrs = []\<rparr>] \<and>
   parse ''a#i.b(x=1, y) > p>'' =
     (Some [\<lparr>tag = ''a'', id' = Some ''i'', classes = [''b''],
             attrs = [(''x'', Some ''1''), (''y'', None)]\<rparr>,
            \<lparr>tag = ''p'', id' = None, classes = [], attrs = []\<rparr>,
            \<lparr>tag = ''div'', id' = None, classes = [], attrs = []\<rparr>], []) \<and>
   fst (parse ''a(x'') = None \<and>
   fst (parse ''a(x>'') = None"
proof -
  have p: "fst (parse ''a#i.b(x=1, y) > p'') =
     Some [\<lparr>tag = ''a'', id' = Some ''i'', classes = [''b''],
             attrs = [(''x'', Some ''1''), (''y'', None)]\<rparr>,
           \<lparr>tag = ''p'', id' = None, classes = [], attrs = []\<rparr>]"
    by code_simp
  have q: "fst (parse ''a(x'') = None" by code_simp
  show ?thesis
    using p q empty_input_default_div [of "''a#i.b(x=1, y) > p''"
      "[\<lparr>tag = ''a'', id' = Some ''i'', classes = [''b''],
             attrs = [(''x'', Some ''1''), (''y'', None)]\<rparr>,
           \<lparr>tag = ''p'', id' = None, classes = [], attrs = []\<rparr>]"]
      empty_input_default_div [of "''a(x''"]
    by simp
qed

end
